theory Spec2Isabelle
  imports Main "HOL-Library.Char_ord" "HOL-Library.List_Lexorder"
begin

section \<open>The tag service of the blog and its cache invalidation\<close>

text \<open>
  The development embeds \<^verbatim>\<open>src/features/tags/tags.service.ts\<close>: the read
  operations \<^verbatim>\<open>getTags\<close> and \<^verbatim>\<open>getPublicTags\<close>, the admin operations
  \<^verbatim>\<open>createTag\<close>, \<^verbatim>\<open>updateTag\<close>, \<^verbatim>\<open>deleteTag\<close>, \<^verbatim>\<open>setPostTags\<close>
  and the helper \<^verbatim>\<open>invalidateTagRelatedCache\<close>.

  The service is asynchronous and effectful. Here an operation is a function on an
  explicit \<open>Context\<close>: the relational store, the key-value cache with its namespace
  counters, the clock, the promises handed to \<^verbatim>\<open>executionCtx.waitUntil\<close>, and a
  log of the calls made to the cache service and to the CDN purger. A call is logged
  where it takes effect: the calls of one invalidation in the order in which the code
  issues them; of an invalidation handed to \<^verbatim>\<open>waitUntil\<close>, the first call
  when the invalidation is started and the others when the background work runs. The
  modules the service imports
  (\<^verbatim>\<open>tags.data\<close>, \<^verbatim>\<open>cache.service\<close>, \<^verbatim>\<open>lib/invalidate\<close>,
  \<^verbatim>\<open>lib/error\<close>, the two schema modules) are not among the sources; each of
  their functions used here is modelled from the specification and marked so.
\<close>

subsection \<open>Data\<close>

text \<open>Rows of the store. \<open>AffectedPost\<close> is the \<^verbatim>\<open>{ id, slug }\<close> pair of the source.\<close>

record Tag =
  tag_id :: nat
  tag_name :: string
  tag_createdAt :: nat

record TagWithCount = Tag +
  postCount :: nat

record Post =
  post_id :: nat
  post_slug :: string
  post_published :: bool

record AffectedPost =
  aff_id :: nat
  slug :: string

text \<open>
  The store: the tag table, the post table, the post-tag association table as
  (post id, tag id) pairs, and the next id the tag table hands out.
\<close>

record DB =
  tags :: "Tag list"
  posts :: "Post list"
  postTags :: "(nat \<times> nat) list"
  nextTagId :: nat

text \<open>The result values built by \<^verbatim>\<open>err({ reason })\<close> and \<^verbatim>\<open>ok(data)\<close>.\<close>

datatype 'a Result = err string | ok 'a

text \<open>
  What a cache entry holds. The public tag list is the one payload the tag service
  reads back; \<open>RawPayload\<close> stands for every other cached shape.
\<close>

datatype Payload = TagsPayload "TagWithCount list" | RawPayload string

record Entry =
  payload :: Payload
  ttl :: nat
  writtenAt :: nat

text \<open>The calls to the cache service and to the CDN purger, as the log records them.\<close>

datatype Call =
    Get string
  | Compute string
  | GetRaw string
  | DeleteKey string
  | BumpVersion string
  | GetVersion string
  | PurgeCDN "string list"

text \<open>
  A promise handed to \<^verbatim>\<open>executionCtx.waitUntil\<close>. The tag service hands over one
  kind only: a call of \<^verbatim>\<open>invalidateTagRelatedCache\<close> with its affected posts. The
  call is the argument of \<^verbatim>\<open>waitUntil\<close>, so it has run to its first
  \<^verbatim>\<open>await\<close> when the promise is handed over: the delete of the public list key
  is issued, the rest of the body is what the promise still has to do.
\<close>

datatype Job = InvalidateTagRelatedCache "AffectedPost list"

record Context =
  db :: DB
  entries :: "string \<rightharpoonup> Entry"
  versions :: "string \<rightharpoonup> nat"
  now :: nat
  calls :: "Call list"
  pending :: "Job list"

subsection \<open>The repository \<^verbatim>\<open>TagRepo\<close>\<close>

text \<open>
  Modelled from the spec: \<^verbatim>\<open>TagRepo.nameExists\<close> (module \<^verbatim>\<open>tags.data\<close>). Some
  tag row carries the name; with \<^verbatim>\<open>excludeId\<close> the row of that id is not looked at.
\<close>

definition TagRepo_nameExists :: "DB \<Rightarrow> string \<Rightarrow> nat option \<Rightarrow> bool" where
  "TagRepo_nameExists d name excludeId =
     (name \<in> set (map tag_name (filter (\<lambda>t. Some (tag_id t) \<noteq> excludeId) (tags d))))"

text \<open>
  Modelled from the spec: \<^verbatim>\<open>TagRepo.insertTag\<close>. A row with a fresh id and the
  current time is appended and returned.
\<close>

definition TagRepo_insertTag :: "DB \<Rightarrow> string \<Rightarrow> nat \<Rightarrow> Tag \<times> DB" where
  "TagRepo_insertTag d name at =
     (let tag = \<lparr>tag_id = nextTagId d, tag_name = name, tag_createdAt = at\<rparr>
      in (tag, d\<lparr>tags := tags d @ [tag], nextTagId := nextTagId d + 1\<rparr>))"

text \<open>Modelled from the spec: \<^verbatim>\<open>TagRepo.findTagById\<close>, the row of that id if any.\<close>

definition TagRepo_findTagById :: "DB \<Rightarrow> nat \<Rightarrow> Tag option" where
  "TagRepo_findTagById d i = find (\<lambda>t. tag_id t = i) (tags d)"

text \<open>
  Modelled from the spec: \<^verbatim>\<open>TagRepo.getPublishedPostsByTagId\<close>, the
  \<^verbatim>\<open>{ id, slug }\<close> of every published post associated with the tag (section 6 of the
  specification: the list of items affected by a mutation).
\<close>

definition TagRepo_getPublishedPostsByTagId :: "DB \<Rightarrow> nat \<Rightarrow> AffectedPost list" where
  "TagRepo_getPublishedPostsByTagId d tagId =
     map (\<lambda>p. \<lparr>aff_id = post_id p, slug = post_slug p\<rparr>)
       (filter (\<lambda>p. post_published p \<and> (post_id p, tagId) \<in> set (postTags d)) (posts d))"

text \<open>
  Modelled from the spec: \<^verbatim>\<open>TagRepo.updateTag\<close>. The payload of an update has an
  optional name; the row of the id takes the name when one is given, and the row as it
  is afterwards is returned.
\<close>

record TagData =
  data_name :: "string option"

definition TagRepo_updateTag :: "DB \<Rightarrow> nat \<Rightarrow> TagData \<Rightarrow> Tag option \<times> DB" where
  "TagRepo_updateTag d i data =
     (let d' = d\<lparr>tags :=
                 map (\<lambda>t. if tag_id t = i
                          then (case data_name data of None \<Rightarrow> t | Some n \<Rightarrow> t\<lparr>tag_name := n\<rparr>)
                          else t)
                   (tags d)\<rparr>
      in (find (\<lambda>t. tag_id t = i) (tags d'), d'))"

text \<open>
  Modelled from the spec: \<^verbatim>\<open>TagRepo.deleteTag\<close>. The row goes, and with it the
  associations of the tag.
\<close>

definition TagRepo_deleteTag :: "DB \<Rightarrow> nat \<Rightarrow> DB" where
  "TagRepo_deleteTag d i =
     d\<lparr>tags := filter (\<lambda>t. tag_id t \<noteq> i) (tags d),
       postTags := filter (\<lambda>pt. snd pt \<noteq> i) (postTags d)\<rparr>"

text \<open>
  Modelled from the spec: \<^verbatim>\<open>TagRepo.setPostTags\<close>. The associations of the post
  are replaced by the given tag ids.
\<close>

definition TagRepo_setPostTags :: "DB \<Rightarrow> nat \<Rightarrow> nat list \<Rightarrow> DB" where
  "TagRepo_setPostTags d postId tagIds =
     d\<lparr>postTags := filter (\<lambda>pt. fst pt \<noteq> postId) (postTags d) @ map (\<lambda>t. (postId, t)) tagIds\<rparr>"

text \<open>
  The sort options. \<^verbatim>\<open>getTags\<close> accepts the three fields; the expression
  \<^verbatim>\<open>sortBy === "postCount" ? "name" : sortBy\<close> of the source narrows them to the
  two that \<^verbatim>\<open>TagRepo.getAllTags\<close> is called with.
\<close>

datatype SortBy = SortBy_name | SortBy_createdAt | SortBy_postCount

datatype TagSortBy = TagSortBy_name | TagSortBy_createdAt

datatype SortDir = asc | desc

text \<open>Modelled from the spec: the direction of a sorted query of the repository.\<close>

definition ordered :: "SortDir \<Rightarrow> 'a list \<Rightarrow> 'a list" where
  "ordered sortDir xs = (case sortDir of asc \<Rightarrow> xs | desc \<Rightarrow> rev xs)"

text \<open>
  Modelled from the spec: \<^verbatim>\<open>TagRepo.getAllTags\<close>, the tag rows sorted by the
  field, ascending or descending. Names compare as byte strings.
\<close>

definition TagRepo_getAllTags :: "DB \<Rightarrow> TagSortBy \<Rightarrow> SortDir \<Rightarrow> Tag list" where
  "TagRepo_getAllTags d sortBy sortDir =
     ordered sortDir
       (case sortBy of
          TagSortBy_name \<Rightarrow> sort_key tag_name (tags d)
        | TagSortBy_createdAt \<Rightarrow> sort_key tag_createdAt (tags d))"

text \<open>
  Modelled from the spec: the count that \<^verbatim>\<open>TagRepo.getAllTagsWithCount\<close> attaches
  to a tag (section 6: the count of associated published items per entity), the number
  of its associated posts; with \<^verbatim>\<open>publicOnly\<close> only published posts count.
\<close>

definition countPosts :: "DB \<Rightarrow> bool \<Rightarrow> nat \<Rightarrow> nat" where
  "countPosts d publicOnly tagId =
     length (filter (\<lambda>pt. snd pt = tagId \<and>
                       (if publicOnly
                        then fst pt \<in> set (map post_id (filter post_published (posts d)))
                        else True))
               (postTags d))"

text \<open>
  Modelled from the spec: a row of \<^verbatim>\<open>TagRepo.getAllTagsWithCount\<close>, the tag with
  its count.
\<close>

definition withPostCount :: "DB \<Rightarrow> bool \<Rightarrow> Tag \<Rightarrow> TagWithCount" where
  "withPostCount d publicOnly t =
     \<lparr>tag_id = tag_id t, tag_name = tag_name t, tag_createdAt = tag_createdAt t,
      postCount = countPosts d publicOnly (tag_id t)\<rparr>"

text \<open>
  Modelled from the spec: \<^verbatim>\<open>TagRepo.getAllTagsWithCount\<close> itself, the rows with
  counts sorted by the field, ascending or descending.
\<close>

definition TagRepo_getAllTagsWithCount ::
  "DB \<Rightarrow> SortBy \<Rightarrow> SortDir \<Rightarrow> bool \<Rightarrow> TagWithCount list" where
  "TagRepo_getAllTagsWithCount d sortBy sortDir publicOnly =
     ordered sortDir
       (case sortBy of
          SortBy_name \<Rightarrow> sort_key tag_name (map (withPostCount d publicOnly) (tags d))
        | SortBy_createdAt \<Rightarrow> sort_key tag_createdAt (map (withPostCount d publicOnly) (tags d))
        | SortBy_postCount \<Rightarrow> sort_key postCount (map (withPostCount d publicOnly) (tags d)))"

subsection \<open>The cache service and the CDN purger\<close>

text \<open>
  Modelled from the spec: the constant \<^verbatim>\<open>TAGS_CACHE_KEYS.publicList\<close> (module
  \<^verbatim>\<open>tags.schema\<close>), the fixed key of the public aggregate view. No proof below
  looks at its characters.
\<close>

definition TAGS_CACHE_KEYS_publicList :: string where
  "TAGS_CACHE_KEYS_publicList = ''tags:public:list''"

text \<open>
  Modelled from the spec: the decimal digits of a version, for the version-scoped keys
  of section 6, \<^verbatim>\<open>{namespace}:v{version}:{discriminator}\<close>
  (\<^verbatim>\<open>POSTS_CACHE_KEYS.detail(version, slug)\<close>, module \<^verbatim>\<open>posts.schema\<close>).
\<close>

fun decimal :: "nat \<Rightarrow> string" where
  "decimal n =
     (if n < 10 then [''0123456789'' ! n]
      else decimal (n div 10) @ [''0123456789'' ! (n mod 10)])"

declare decimal.simps [simp del]

text \<open>
  Modelled from the spec: \<^verbatim>\<open>POSTS_CACHE_KEYS.detail\<close> with the namespace
  \<^verbatim>\<open>posts:detail\<close>, the version and the slug as discriminator.
\<close>

definition POSTS_CACHE_KEYS_detail :: "nat \<Rightarrow> string \<Rightarrow> string" where
  "POSTS_CACHE_KEYS_detail version s = ''posts:detail:v'' @ decimal version @ '':'' @ s"

text \<open>
  Modelled from the spec: the entry a read of the store sees, present until its TTL
  elapses or it is deleted (section 3, CacheEntry).
\<close>

definition fresh :: "Context \<Rightarrow> string \<Rightarrow> Entry option" where
  "fresh context key =
     (case entries context key of
        None \<Rightarrow> None
      | Some e \<Rightarrow> if now context < writtenAt e + ttl e then Some e else None)"

text \<open>The log: every call of the cache service and of the purger appends itself.\<close>

definition logged :: "Context \<Rightarrow> Call \<Rightarrow> Context" where
  "logged context c = context\<lparr>calls := calls context @ [c]\<rparr>"

text \<open>
  Modelled from the spec: \<^verbatim>\<open>CacheService.get(key, schema, compute, {ttl})\<close>
  (section 4.1). A present, schema-valid entry is returned. On a miss or a validation
  failure \<^verbatim>\<open>compute\<close> is called; its error propagates and nothing is cached; its
  result is validated, stored with the TTL and returned.
\<close>

definition CacheService_get ::
  "Context \<Rightarrow> string \<Rightarrow> (Payload \<Rightarrow> bool) \<Rightarrow> (unit \<Rightarrow> string + Payload) \<Rightarrow> nat
     \<Rightarrow> (string + Payload) \<times> Context" where
  "CacheService_get context key schema compute t =
     (let c0 = logged context (Get key);
          hit = (case fresh c0 key of
                   None \<Rightarrow> None
                 | Some e \<Rightarrow> if schema (payload e) then Some (payload e) else None)
      in case hit of
           Some v \<Rightarrow> (Inr v, c0)
         | None \<Rightarrow>
             (let c1 = logged c0 (Compute key)
              in case compute () of
                   Inl e \<Rightarrow> (Inl e, c1)
                 | Inr v \<Rightarrow>
                     if schema v
                     then (Inr v,
                           c1\<lparr>entries := (entries c1)
                                 (key \<mapsto> \<lparr>payload = v, ttl = t, writtenAt = now c1\<rparr>)\<rparr>)
                     else (Inl ''SCHEMA_VALIDATION_FAILED'', c1)))"

text \<open>Modelled from the spec: \<^verbatim>\<open>CacheService.getRaw(key)\<close>, no schema validation.\<close>

definition CacheService_getRaw :: "Context \<Rightarrow> string \<Rightarrow> Payload option \<times> Context" where
  "CacheService_getRaw context key =
     (map_option payload (fresh context key), logged context (GetRaw key))"

text \<open>
  Modelled from the spec: \<^verbatim>\<open>CacheService.deleteKey(key)\<close>, idempotent; deleting
  an absent key is not an error.
\<close>

definition CacheService_deleteKey :: "Context \<Rightarrow> string \<Rightarrow> Context" where
  "CacheService_deleteKey context key =
     logged (context\<lparr>entries := (entries context)(key := None)\<rparr>) (DeleteKey key)"

text \<open>
  Modelled from the spec: the version counter of a namespace (section 3), absent = 0.
\<close>

definition version_of :: "Context \<Rightarrow> string \<Rightarrow> nat" where
  "version_of context namespace =
     (case versions context namespace of None \<Rightarrow> 0 | Some v \<Rightarrow> v)"

text \<open>
  Modelled from the spec: \<^verbatim>\<open>CacheService.bumpVersion(namespace)\<close>, which increments
  the counter of the namespace in one atomic step.
\<close>

definition CacheService_bumpVersion :: "Context \<Rightarrow> string \<Rightarrow> Context" where
  "CacheService_bumpVersion context namespace =
     logged (context\<lparr>versions := (versions context)
                        (namespace \<mapsto> version_of context namespace + 1)\<rparr>)
       (BumpVersion namespace)"

text \<open>
  Modelled from the spec: \<^verbatim>\<open>CacheService.getVersion(namespace)\<close>, the current
  version, 0 if unset.
\<close>

definition CacheService_getVersion :: "Context \<Rightarrow> string \<Rightarrow> nat \<times> Context" where
  "CacheService_getVersion context namespace =
     (version_of context namespace, logged context (GetVersion namespace))"

text \<open>
  Modelled from the spec: \<^verbatim>\<open>purgeCDNCache(env, { urls })\<close> (module
  \<^verbatim>\<open>lib/invalidate\<close>), the edge purge collaborator of section 6. The CDN is outside
  the system: the request is recorded, nothing else changes.
\<close>

definition purgeCDNCache :: "Context \<Rightarrow> string list \<Rightarrow> Context" where
  "purgeCDNCache context urls = logged context (PurgeCDN urls)"

subsection \<open>The service, from \<^verbatim>\<open>tags.service.ts\<close>\<close>

text \<open>
  \<^verbatim>\<open>getTags\<close>. The four options are optional in the source and default to
  \<^verbatim>\<open>"name"\<close>, \<^verbatim>\<open>"asc"\<close>, \<^verbatim>\<open>false\<close>, \<^verbatim>\<open>false\<close>. The result is an array
  of \<^verbatim>\<open>Tag | TagWithCount\<close>.
\<close>

record GetTagsInput =
  sortBy :: "SortBy option"
  sortDir :: "SortDir option"
  withCount :: "bool option"
  publicOnly :: "bool option"

text \<open>A destructuring default of the source: \<^verbatim>\<open>const { sortBy = "name", ... } = data\<close>.\<close>

definition orDefault :: "'a option \<Rightarrow> 'a \<Rightarrow> 'a" where
  "orDefault x d = (case x of None \<Rightarrow> d | Some v \<Rightarrow> v)"

definition getTags :: "Context \<Rightarrow> GetTagsInput \<Rightarrow> (Tag + TagWithCount) list" where
  "getTags context data =
     (let sortBy' = orDefault (sortBy data) SortBy_name;
          sortDir' = orDefault (sortDir data) asc;
          withCount' = orDefault (withCount data) False;
          publicOnly' = orDefault (publicOnly data) False
      in if withCount'
         then map Inr (TagRepo_getAllTagsWithCount (db context) sortBy' sortDir' publicOnly')
         else map Inl
                (TagRepo_getAllTags (db context)
                   (case sortBy' of
                      SortBy_postCount \<Rightarrow> TagSortBy_name
                    | SortBy_name \<Rightarrow> TagSortBy_name
                    | SortBy_createdAt \<Rightarrow> TagSortBy_createdAt)
                   sortDir'))"

text \<open>
  Modelled from the spec: the schema \<^verbatim>\<open>z.array(TagWithCountSchema)\<close> (module
  \<^verbatim>\<open>tags.schema\<close>) accepts the payloads that are lists of tags with counts.
\<close>

definition isTagsPayload :: "Payload \<Rightarrow> bool" where
  "isTagsPayload p = (case p of TagsPayload _ \<Rightarrow> True | RawPayload _ \<Rightarrow> False)"

text \<open>Modelled from the spec: the TTL \<^verbatim>\<open>"7d"\<close> in seconds (section 6).\<close>

definition ttl_7d :: nat where
  "ttl_7d = 7 * 24 * 60 * 60"

text \<open>
  \<^verbatim>\<open>getPublicTags\<close>: the public list through the cache, under the key
  \<^verbatim>\<open>TAGS_CACHE_KEYS.publicList\<close>, computed on a miss from the store with
  \<^verbatim>\<open>publicOnly: true, sortBy: "postCount", sortDir: "desc"\<close>.
\<close>

definition getPublicTags :: "Context \<Rightarrow> (string + Payload) \<times> Context" where
  "getPublicTags context =
     CacheService_get context TAGS_CACHE_KEYS_publicList isTagsPayload
       (\<lambda>_. Inr (TagsPayload
                  (TagRepo_getAllTagsWithCount (db context) SortBy_postCount desc True)))
       ttl_7d"

text \<open>
  \<^verbatim>\<open>invalidateTagRelatedCache\<close>. The public list key is deleted and awaited first.
  Then, with affected posts: the bump of \<^verbatim>\<open>posts:list\<close> is issued, the version
  of \<^verbatim>\<open>posts:detail\<close> is read and awaited, one delete per post and the purge are
  issued, and \<^verbatim>\<open>Promise.all\<close> waits for them. Without affected posts: the two
  bumps and the purge are issued and awaited together. The calls that run concurrently
  touch different counters and keys; the model runs them in the order of issue.
\<close>

definition invalidateTagRelatedCache :: "Context \<Rightarrow> AffectedPost list \<Rightarrow> Context" where
  "invalidateTagRelatedCache context affectedPosts =
     (let c1 = CacheService_deleteKey context TAGS_CACHE_KEYS_publicList
      in if length affectedPosts > 0
         then
           (let c2 = CacheService_bumpVersion c1 ''posts:list'';
                (version, c3) = CacheService_getVersion c2 ''posts:detail'';
                c4 = foldl (\<lambda>c post. CacheService_deleteKey c
                                        (POSTS_CACHE_KEYS_detail version (slug post)))
                       c3 affectedPosts;
                cdnUrls = foldl (\<lambda>urls post. urls @ [''/post/'' @ slug post])
                            [''/'', ''/posts''] affectedPosts
            in purgeCDNCache c4 cdnUrls)
         else
           purgeCDNCache
             (CacheService_bumpVersion
                (CacheService_bumpVersion c1 ''posts:detail'') ''posts:list'')
             [''/'', ''/posts''])"

text \<open>
  Modelled from the spec: \<^verbatim>\<open>executionCtx.waitUntil(promise)\<close>, the background
  task runner of section 5. The work is handed over and not awaited; the runtime runs
  it to completion later.
\<close>

definition waitUntil :: "Context \<Rightarrow> Job \<Rightarrow> Context" where
  "waitUntil context job = context\<lparr>pending := pending context @ [job]\<rparr>"

text \<open>
  Failures. Section 7 of the specification lets a delete, a bump or a purge fail. A
  call that fails is made and logged, changes nothing, and its promise rejects; which
  calls fail is decided outside the service and given as \<open>fails\<close>.
\<close>

datatype Outcome = Fulfilled | Rejected

text \<open>Modelled from the spec: nothing fails.\<close>

definition noFaults :: "Call \<Rightarrow> bool" where
  "noFaults call = False"

text \<open>
  Modelled from the spec: one call under \<open>fails\<close>; \<open>after\<close> is the context the
  call leaves when it succeeds.
\<close>

definition attempt :: "(Call \<Rightarrow> bool) \<Rightarrow> Call \<Rightarrow> Context \<Rightarrow> Context \<Rightarrow> Outcome \<times> Context" where
  "attempt fails call context after =
     (if fails call then (Rejected, logged context call) else (Fulfilled, after))"

text \<open>\<^verbatim>\<open>Promise.all\<close> of two promises fulfils when both do.\<close>

definition both :: "Outcome \<Rightarrow> Outcome \<Rightarrow> Outcome" where
  "both a b = (if a = Fulfilled \<and> b = Fulfilled then Fulfilled else Rejected)"

text \<open>
  \<^verbatim>\<open>invalidateTagRelatedCache\<close> when calls may fail, in the two parts that an
  \<^verbatim>\<open>await\<close> separates. The start is what calling the function does at once: the
  delete of the public list key is issued.
\<close>

definition invalidateTagRelatedCache_start :: "(Call \<Rightarrow> bool) \<Rightarrow> Context \<Rightarrow> Context" where
  "invalidateTagRelatedCache_start fails context =
     snd (attempt fails (DeleteKey TAGS_CACHE_KEYS_publicList) context
            (CacheService_deleteKey context TAGS_CACHE_KEYS_publicList))"

text \<open>
  The rest runs when the awaited delete has settled. If it rejected, the
  \<^verbatim>\<open>await\<close> throws and the promise rejects with nothing more issued. With
  affected posts the bump is issued, then the version read is awaited: if it rejects,
  the promise rejects, the bump already issued. Otherwise the deletes and the purge are
  issued and \<^verbatim>\<open>Promise.all\<close> rejects when one of the issued calls does. The
  result is how the promise settles and the context it leaves.
\<close>

definition invalidateTagRelatedCache_resume ::
  "(Call \<Rightarrow> bool) \<Rightarrow> Context \<Rightarrow> AffectedPost list \<Rightarrow> Outcome \<times> Context" where
  "invalidateTagRelatedCache_resume fails c1 affectedPosts =
     (if fails (DeleteKey TAGS_CACHE_KEYS_publicList) then (Rejected, c1)
      else if length affectedPosts > 0
      then
        (let (bumped, c2) = attempt fails (BumpVersion ''posts:list'') c1
                              (CacheService_bumpVersion c1 ''posts:list'');
             (read, c3) = attempt fails (GetVersion ''posts:detail'') c2
                            (snd (CacheService_getVersion c2 ''posts:detail''))
         in if read = Rejected then (Rejected, c3)
            else
              (let version = fst (CacheService_getVersion c2 ''posts:detail'');
                   (deleted, c4) =
                     foldl (\<lambda>(done, c) post.
                              let (d, c') = attempt fails
                                    (DeleteKey (POSTS_CACHE_KEYS_detail version (slug post))) c
                                    (CacheService_deleteKey c
                                       (POSTS_CACHE_KEYS_detail version (slug post)))
                              in (both done d, c'))
                       (Fulfilled, c3) affectedPosts;
                   cdnUrls = foldl (\<lambda>urls post. urls @ [''/post/'' @ slug post])
                               [''/'', ''/posts''] affectedPosts;
                   (purged, c5) = attempt fails (PurgeCDN cdnUrls) c4 (purgeCDNCache c4 cdnUrls)
               in (both bumped (both deleted purged), c5)))
      else
        (let (bumpedDetail, c2) = attempt fails (BumpVersion ''posts:detail'') c1
                                    (CacheService_bumpVersion c1 ''posts:detail'');
             (bumpedList, c3) = attempt fails (BumpVersion ''posts:list'') c2
                                  (CacheService_bumpVersion c2 ''posts:list'');
             (purged, c4) = attempt fails (PurgeCDN [''/'', ''/posts'']) c3
                              (purgeCDNCache c3 [''/'', ''/posts''])
         in (both bumpedDetail (both bumpedList purged), c4)))"

text \<open>The whole call, awaited: the start, then the rest.\<close>

definition invalidateTagRelatedCache_under ::
  "(Call \<Rightarrow> bool) \<Rightarrow> Context \<Rightarrow> AffectedPost list \<Rightarrow> Outcome \<times> Context" where
  "invalidateTagRelatedCache_under fails context affectedPosts =
     invalidateTagRelatedCache_resume fails (invalidateTagRelatedCache_start fails context)
       affectedPosts"

text \<open>
  Running a pending job is letting the promise do the rest of its body. Under
  \<open>fails\<close> it settles one way or the other; \<open>runJob\<close> is the run in which nothing
  fails.
\<close>

fun runJob_under :: "(Call \<Rightarrow> bool) \<Rightarrow> Context \<Rightarrow> Job \<Rightarrow> Outcome \<times> Context" where
  "runJob_under fails context (InvalidateTagRelatedCache affectedPosts) =
     invalidateTagRelatedCache_resume fails context affectedPosts"

definition runJob :: "Context \<Rightarrow> Job \<Rightarrow> Context" where
  "runJob context job = snd (runJob_under noFaults context job)"

text \<open>
  Modelled from the spec: \<^verbatim>\<open>waitForBackgroundTasks\<close> (the helper of the tests,
  module \<^verbatim>\<open>tests/test-utils\<close>), which lets the pending work run to completion,
  oldest first.
\<close>

definition waitForBackgroundTasks :: "Context \<Rightarrow> Context" where
  "waitForBackgroundTasks context = foldl runJob (context\<lparr>pending := []\<rparr>) (pending context)"

text \<open>
  Modelled from the spec: the same under \<open>fails\<close>, with the way each promise
  settled. Nobody reads these outcomes (section 5: no caller-visible completion
  signal).
\<close>

definition waitForBackgroundTasks_under ::
  "(Call \<Rightarrow> bool) \<Rightarrow> Context \<Rightarrow> Outcome list \<times> Context" where
  "waitForBackgroundTasks_under fails context =
     foldl (\<lambda>(settled, c) job. let (outcome, c') = runJob_under fails c job
                               in (settled @ [outcome], c'))
       ([], context\<lparr>pending := []\<rparr>) (pending context)"

text \<open>\<^verbatim>\<open>createTag\<close>.\<close>

record CreateTagInput =
  create_name :: string

definition createTag :: "Context \<Rightarrow> CreateTagInput \<Rightarrow> Tag Result \<times> Context" where
  "createTag context data =
     (let exists = TagRepo_nameExists (db context) (create_name data) None
      in if exists
         then (err ''TAG_NAME_ALREADY_EXISTS'', context)
         else
           (let (tag, d') = TagRepo_insertTag (db context) (create_name data) (now context)
            in (ok tag, context\<lparr>db := d'\<rparr>)))"

text \<open>
  \<^verbatim>\<open>updateTag\<close>. The test \<^verbatim>\<open>data.data.name && ...\<close> of the source is false for
  an absent name and for the empty string. After the store update the call of
  \<^verbatim>\<open>invalidateTagRelatedCache\<close> is started, its promise goes to
  \<^verbatim>\<open>waitUntil\<close>, and \<^verbatim>\<open>ok(tag)\<close> is returned without waiting for it.
\<close>

record UpdateTagInput =
  upd_id :: nat
  upd_data :: TagData

definition updateTag :: "Context \<Rightarrow> UpdateTagInput \<Rightarrow> Tag option Result \<times> Context" where
  "updateTag context data =
     (case TagRepo_findTagById (db context) (upd_id data) of
        None \<Rightarrow> (err ''TAG_NOT_FOUND'', context)
      | Some existingTag \<Rightarrow>
          if (case data_name (upd_data data) of
                None \<Rightarrow> False
              | Some name \<Rightarrow>
                  name \<noteq> [] \<and> name \<noteq> tag_name existingTag \<and>
                  TagRepo_nameExists (db context) name (Some (upd_id data)))
          then (err ''TAG_NAME_ALREADY_EXISTS'', context)
          else
            (let affectedPosts = TagRepo_getPublishedPostsByTagId (db context) (upd_id data);
                 (tag, d') = TagRepo_updateTag (db context) (upd_id data) (upd_data data)
             in (ok tag,
                 waitUntil
                   (CacheService_deleteKey (context\<lparr>db := d'\<rparr>) TAGS_CACHE_KEYS_publicList)
                   (InvalidateTagRelatedCache affectedPosts))))"

text \<open>\<^verbatim>\<open>updateTag\<close> when calls may fail: the started call is issued under \<open>fails\<close>.\<close>

definition updateTag_under ::
  "(Call \<Rightarrow> bool) \<Rightarrow> Context \<Rightarrow> UpdateTagInput \<Rightarrow> Tag option Result \<times> Context" where
  "updateTag_under fails context data =
     (case TagRepo_findTagById (db context) (upd_id data) of
        None \<Rightarrow> (err ''TAG_NOT_FOUND'', context)
      | Some existingTag \<Rightarrow>
          if (case data_name (upd_data data) of
                None \<Rightarrow> False
              | Some name \<Rightarrow>
                  name \<noteq> [] \<and> name \<noteq> tag_name existingTag \<and>
                  TagRepo_nameExists (db context) name (Some (upd_id data)))
          then (err ''TAG_NAME_ALREADY_EXISTS'', context)
          else
            (let affectedPosts = TagRepo_getPublishedPostsByTagId (db context) (upd_id data);
                 (tag, d') = TagRepo_updateTag (db context) (upd_id data) (upd_data data)
             in (ok tag,
                 waitUntil
                   (invalidateTagRelatedCache_start fails (context\<lparr>db := d'\<rparr>))
                   (InvalidateTagRelatedCache affectedPosts))))"

text \<open>
  \<^verbatim>\<open>deleteTag\<close>. It returns nothing; an unknown id ends it at once. The
  invalidation is started and handed over as in \<^verbatim>\<open>updateTag\<close>.
\<close>

record DeleteTagInput =
  del_id :: nat

definition deleteTag :: "Context \<Rightarrow> DeleteTagInput \<Rightarrow> unit \<times> Context" where
  "deleteTag context data =
     (case TagRepo_findTagById (db context) (del_id data) of
        None \<Rightarrow> ((), context)
      | Some tag \<Rightarrow>
          (let affectedPosts = TagRepo_getPublishedPostsByTagId (db context) (del_id data);
               d' = TagRepo_deleteTag (db context) (del_id data)
           in ((),
               waitUntil
                 (CacheService_deleteKey (context\<lparr>db := d'\<rparr>) TAGS_CACHE_KEYS_publicList)
                 (InvalidateTagRelatedCache affectedPosts))))"

text \<open>\<^verbatim>\<open>deleteTag\<close> when calls may fail.\<close>

definition deleteTag_under ::
  "(Call \<Rightarrow> bool) \<Rightarrow> Context \<Rightarrow> DeleteTagInput \<Rightarrow> unit \<times> Context" where
  "deleteTag_under fails context data =
     (case TagRepo_findTagById (db context) (del_id data) of
        None \<Rightarrow> ((), context)
      | Some tag \<Rightarrow>
          (let affectedPosts = TagRepo_getPublishedPostsByTagId (db context) (del_id data);
               d' = TagRepo_deleteTag (db context) (del_id data)
           in ((),
               waitUntil
                 (invalidateTagRelatedCache_start fails (context\<lparr>db := d'\<rparr>))
                 (InvalidateTagRelatedCache affectedPosts))))"

text \<open>
  \<^verbatim>\<open>setPostTags\<close>: "edit only, no cache invalidation" in the words of the source;
  the key-value cache is refreshed on publish.
\<close>

record SetPostTagsInput =
  postId :: nat
  tagIds :: "nat list"

definition setPostTags :: "Context \<Rightarrow> SetPostTagsInput \<Rightarrow> Context" where
  "setPostTags context data =
     context\<lparr>db := TagRepo_setPostTags (db context) (postId data) (tagIds data)\<rparr>"

subsection \<open>Sequences of operations\<close>

text \<open>Time passing: the clock moves on, nothing else changes.\<close>

definition elapse :: "Context \<Rightarrow> nat \<Rightarrow> Context" where
  "elapse context n = context\<lparr>now := now context + n\<rparr>"


text \<open>
  Everything that can happen to a context: a call of the cache service or of the
  purger, a run of the orchestrator, an operation of the tag service, the background
  work, and time passing. A history is a list of these, applied from the left.
\<close>

datatype Op =
    Op_get string "Payload \<Rightarrow> bool" "unit \<Rightarrow> string + Payload" nat
  | Op_getRaw string
  | Op_deleteKey string
  | Op_bumpVersion string
  | Op_getVersion string
  | Op_purgeCDNCache "string list"
  | Op_invalidateTagRelatedCache "AffectedPost list"
  | Op_getPublicTags
  | Op_createTag CreateTagInput
  | Op_updateTag UpdateTagInput
  | Op_deleteTag DeleteTagInput
  | Op_setPostTags SetPostTagsInput
  | Op_waitForBackgroundTasks
  | Op_elapse nat

fun step :: "Context \<Rightarrow> Op \<Rightarrow> Context" where
  "step c (Op_get key schema compute t) = snd (CacheService_get c key schema compute t)"
| "step c (Op_getRaw key) = snd (CacheService_getRaw c key)"
| "step c (Op_deleteKey key) = CacheService_deleteKey c key"
| "step c (Op_bumpVersion namespace) = CacheService_bumpVersion c namespace"
| "step c (Op_getVersion namespace) = snd (CacheService_getVersion c namespace)"
| "step c (Op_purgeCDNCache urls) = purgeCDNCache c urls"
| "step c (Op_invalidateTagRelatedCache affectedPosts) = invalidateTagRelatedCache c affectedPosts"
| "step c Op_getPublicTags = snd (getPublicTags c)"
| "step c (Op_createTag data) = snd (createTag c data)"
| "step c (Op_updateTag data) = snd (updateTag c data)"
| "step c (Op_deleteTag data) = snd (deleteTag c data)"
| "step c (Op_setPostTags data) = setPostTags c data"
| "step c Op_waitForBackgroundTasks = waitForBackgroundTasks c"
| "step c (Op_elapse n) = elapse c n"

text \<open>
  Between two contexts \<open>c\<close> and \<open>c'\<close> of a history the log has only grown, and
  the entry of the key \<open>k\<close> is the same unless a delete of \<open>k\<close> or a compute for
  \<open>k\<close> is among the new calls.
\<close>

abbreviation keeps :: "string \<Rightarrow> Context \<Rightarrow> Context \<Rightarrow> bool" where
  "keeps k c c' \<equiv>
     \<exists>new. calls c' = calls c @ new \<and>
           (DeleteKey k \<notin> set new \<and> Compute k \<notin> set new \<longrightarrow> entries c' k = entries c k)"

subsection \<open>Example contexts\<close>

text \<open>
  A store with two tags and two posts: the published post \<open>post-1\<close> carries the
  tag \<open>old-name\<close>, the draft carries \<open>spare\<close>. The cache is empty.
\<close>

definition ex_db :: DB where
  "ex_db =
     \<lparr>tags = [\<lparr>tag_id = 1, tag_name = ''old-name'', tag_createdAt = 10\<rparr>,
              \<lparr>tag_id = 2, tag_name = ''spare'', tag_createdAt = 20\<rparr>],
      posts = [\<lparr>post_id = 1, post_slug = ''post-1'', post_published = True\<rparr>,
               \<lparr>post_id = 2, post_slug = ''draft'', post_published = False\<rparr>],
      postTags = [(1, 1), (2, 2)],
      nextTagId = 3\<rparr>"

definition ex_context :: Context where
  "ex_context =
     \<lparr>db = ex_db, entries = Map.empty, versions = Map.empty, now = 100,
      calls = [], pending = []\<rparr>"

text \<open>The example after a first read of the public tag list: the cache holds it.\<close>

definition ex_cached :: Context where
  "ex_cached = snd (getPublicTags ex_context)"

text \<open>
  The same store seen through a different cache state: the public list cached, the list
  namespace at version 5 and an invalidation still pending.
\<close>

definition ex_busy :: Context where
  "ex_busy =
     ex_cached\<lparr>versions := [''posts:list'' \<mapsto> 5],
               pending := [InvalidateTagRelatedCache []]\<rparr>"

text \<open>A store in which two rows carry the same name.\<close>

definition ex_twins :: Context where
  "ex_twins =
     ex_context\<lparr>db := ex_db\<lparr>tags := [\<lparr>tag_id = 1, tag_name = ''twin'', tag_createdAt = 10\<rparr>,
                                     \<lparr>tag_id = 2, tag_name = ''twin'', tag_createdAt = 20\<rparr>]\<rparr>\<rparr>"

section \<open>Properties\<close>

subsection \<open>What each cache call changes\<close>

lemma logged_simps [simp]:
  "db (logged c x) = db c"
  "entries (logged c x) = entries c"
  "versions (logged c x) = versions c"
  "now (logged c x) = now c"
  "calls (logged c x) = calls c @ [x]"
  "pending (logged c x) = pending c"
  by (simp_all add: logged_def)

lemma deleteKey_simps [simp]:
  "db (CacheService_deleteKey c k) = db c"
  "entries (CacheService_deleteKey c k) = (entries c)(k := None)"
  "versions (CacheService_deleteKey c k) = versions c"
  "now (CacheService_deleteKey c k) = now c"
  "calls (CacheService_deleteKey c k) = calls c @ [DeleteKey k]"
  "pending (CacheService_deleteKey c k) = pending c"
  by (simp_all add: CacheService_deleteKey_def)

lemma bumpVersion_simps [simp]:
  "db (CacheService_bumpVersion c n) = db c"
  "entries (CacheService_bumpVersion c n) = entries c"
  "versions (CacheService_bumpVersion c n) = (versions c)(n \<mapsto> version_of c n + 1)"
  "now (CacheService_bumpVersion c n) = now c"
  "calls (CacheService_bumpVersion c n) = calls c @ [BumpVersion n]"
  "pending (CacheService_bumpVersion c n) = pending c"
  by (simp_all add: CacheService_bumpVersion_def)

lemma purgeCDNCache_simps [simp]:
  "db (purgeCDNCache c us) = db c"
  "entries (purgeCDNCache c us) = entries c"
  "versions (purgeCDNCache c us) = versions c"
  "now (purgeCDNCache c us) = now c"
  "calls (purgeCDNCache c us) = calls c @ [PurgeCDN us]"
  "pending (purgeCDNCache c us) = pending c"
  by (simp_all add: purgeCDNCache_def)

lemma getVersion_simps [simp]:
  "fst (CacheService_getVersion c n) = version_of c n"
  "snd (CacheService_getVersion c n) = logged c (GetVersion n)"
  by (simp_all add: CacheService_getVersion_def)

lemma version_of_bumpVersion:
  "version_of (CacheService_bumpVersion c n) m =
     (if m = n then version_of c n + 1 else version_of c m)"
  by (simp add: version_of_def)

lemma version_of_deleteKey [simp]: "version_of (CacheService_deleteKey c k) n = version_of c n"
  by (simp add: version_of_def)

lemma version_of_purgeCDNCache [simp]: "version_of (purgeCDNCache c us) n = version_of c n"
  by (simp add: version_of_def)

lemma version_of_logged [simp]: "version_of (logged c x) n = version_of c n"
  by (simp add: version_of_def)

lemma version_of_db_update [simp]: "version_of (c\<lparr>db := d\<rparr>) n = version_of c n"
  by (simp add: version_of_def)

text \<open>
  The calls that one invalidation issues together act on different counters and keys:
  taken in another order they leave the same entries and versions.
\<close>

lemma concurrent_calls_commute:
  "n \<noteq> m \<Longrightarrow>
     versions (CacheService_bumpVersion (CacheService_bumpVersion c n) m) =
     versions (CacheService_bumpVersion (CacheService_bumpVersion c m) n)"
  "versions (CacheService_deleteKey (CacheService_bumpVersion c n) k) =
     versions (CacheService_bumpVersion (CacheService_deleteKey c k) n)"
  "entries (CacheService_deleteKey (CacheService_bumpVersion c n) k) =
     entries (CacheService_bumpVersion (CacheService_deleteKey c k) n)"
  "entries (CacheService_deleteKey (CacheService_deleteKey c k) k') =
     entries (CacheService_deleteKey (CacheService_deleteKey c k') k)"
  by (auto simp: version_of_def fun_eq_iff)

text \<open>The two loops of the precise path.\<close>

lemma deleteKeys_foldl:
  "db (foldl (\<lambda>c p. CacheService_deleteKey c (f p)) c ps) = db c"
  "versions (foldl (\<lambda>c p. CacheService_deleteKey c (f p)) c ps) = versions c"
  "now (foldl (\<lambda>c p. CacheService_deleteKey c (f p)) c ps) = now c"
  "pending (foldl (\<lambda>c p. CacheService_deleteKey c (f p)) c ps) = pending c"
  "calls (foldl (\<lambda>c p. CacheService_deleteKey c (f p)) c ps) =
     calls c @ map (\<lambda>p. DeleteKey (f p)) ps"
  "entries (foldl (\<lambda>c p. CacheService_deleteKey c (f p)) c ps) =
     (\<lambda>k. if k \<in> set (map f ps) then None else entries c k)"
  by (induction ps arbitrary: c; auto simp: fun_eq_iff)+

lemma version_of_deleteKeys_foldl [simp]:
  "version_of (foldl (\<lambda>c p. CacheService_deleteKey c (f p)) c ps) n = version_of c n"
  by (simp add: version_of_def deleteKeys_foldl)

lemma cdnUrls_foldl: "foldl (\<lambda>urls p. urls @ [g p]) us ps = us @ map g ps"
  by (induction ps arbitrary: us) auto

subsection \<open>The two paths of the orchestrator\<close>

lemma invalidate_empty:
  "invalidateTagRelatedCache c [] =
     purgeCDNCache
       (CacheService_bumpVersion
          (CacheService_bumpVersion
             (CacheService_deleteKey c TAGS_CACHE_KEYS_publicList) ''posts:detail'')
          ''posts:list'')
       [''/'', ''/posts'']"
  by (simp add: invalidateTagRelatedCache_def)

lemma invalidate_nonempty:
  assumes "ps \<noteq> []"
  shows "invalidateTagRelatedCache c ps =
     purgeCDNCache
       (foldl (\<lambda>c' p. CacheService_deleteKey c'
                 (POSTS_CACHE_KEYS_detail (version_of c ''posts:detail'') (slug p)))
          (logged
             (CacheService_bumpVersion
                (CacheService_deleteKey c TAGS_CACHE_KEYS_publicList) ''posts:list'')
             (GetVersion ''posts:detail''))
          ps)
       ([''/'', ''/posts''] @ map (\<lambda>p. ''/post/'' @ slug p) ps)"
  using assms
  by (simp add: invalidateTagRelatedCache_def Let_def CacheService_getVersion_def
      cdnUrls_foldl version_of_bumpVersion)

lemma invalidate_frame [simp]:
  "db (invalidateTagRelatedCache c ps) = db c"
  "now (invalidateTagRelatedCache c ps) = now c"
  "pending (invalidateTagRelatedCache c ps) = pending c"
  by (cases "ps = []"; simp add: invalidate_empty invalidate_nonempty deleteKeys_foldl)+

lemma invalidate_publicList_absent [simp]:
  "entries (invalidateTagRelatedCache c ps) TAGS_CACHE_KEYS_publicList = None"
  by (cases "ps = []") (simp_all add: invalidate_empty invalidate_nonempty deleteKeys_foldl)

lemma invalidate_first_call:
  "\<exists>rest. calls (invalidateTagRelatedCache c ps) =
     calls c @ DeleteKey TAGS_CACHE_KEYS_publicList # rest"
  by (cases "ps = []") (simp_all add: invalidate_empty invalidate_nonempty deleteKeys_foldl)

lemma invalidate_version_mono:
  "version_of c n \<le> version_of (invalidateTagRelatedCache c ps) n"
  by (cases "ps = []")
    (simp_all add: invalidate_empty invalidate_nonempty version_of_bumpVersion)

subsection \<open>The rest of a started invalidation\<close>

lemma attempt_noFaults [simp]: "attempt noFaults call c after = (Fulfilled, after)"
  by (simp add: attempt_def noFaults_def)

lemma attempt_calls:
  "calls after = calls c @ [call] \<Longrightarrow> calls (snd (attempt fails call c after)) = calls c @ [call]"
  by (simp add: attempt_def)

lemma both_Fulfilled [simp]: "both Fulfilled b = b" "both a Fulfilled = a"
  by (cases b; cases a; simp add: both_def)+

lemma deleteKeys_noFaults:
  "foldl (\<lambda>(done, c) post. (done, CacheService_deleteKey c (f post))) (d, c) ps =
   (d, foldl (\<lambda>c post. CacheService_deleteKey c (f post)) c ps)"
  by (induction ps arbitrary: c) simp_all

lemma resume_noFaults:
  "invalidateTagRelatedCache_resume noFaults c ps =
     (Fulfilled,
      if ps = []
      then purgeCDNCache
             (CacheService_bumpVersion (CacheService_bumpVersion c ''posts:detail'') ''posts:list'')
             [''/'', ''/posts'']
      else purgeCDNCache
             (foldl (\<lambda>c' p. CacheService_deleteKey c'
                       (POSTS_CACHE_KEYS_detail (version_of c ''posts:detail'') (slug p)))
                (logged (CacheService_bumpVersion c ''posts:list'') (GetVersion ''posts:detail''))
                ps)
             ([''/'', ''/posts''] @ map (\<lambda>p. ''/post/'' @ slug p) ps))"
  by (simp add: invalidateTagRelatedCache_resume_def noFaults_def [of "DeleteKey _"] Let_def
      deleteKeys_noFaults cdnUrls_foldl version_of_bumpVersion)

lemma runJob_eq:
  "runJob c (InvalidateTagRelatedCache ps) =
     (if ps = []
      then purgeCDNCache
             (CacheService_bumpVersion (CacheService_bumpVersion c ''posts:detail'') ''posts:list'')
             [''/'', ''/posts'']
      else purgeCDNCache
             (foldl (\<lambda>c' p. CacheService_deleteKey c'
                       (POSTS_CACHE_KEYS_detail (version_of c ''posts:detail'') (slug p)))
                (logged (CacheService_bumpVersion c ''posts:list'') (GetVersion ''posts:detail''))
                ps)
             ([''/'', ''/posts''] @ map (\<lambda>p. ''/post/'' @ slug p) ps))"
  by (simp add: runJob_def resume_noFaults)

lemma runJob_started:
  "runJob (CacheService_deleteKey c TAGS_CACHE_KEYS_publicList) (InvalidateTagRelatedCache ps) =
     invalidateTagRelatedCache c ps"
  by (cases "ps = []") (simp_all add: runJob_eq invalidate_empty invalidate_nonempty)

lemma start_noFaults [simp]:
  "invalidateTagRelatedCache_start noFaults c =
     CacheService_deleteKey c TAGS_CACHE_KEYS_publicList"
  by (simp add: invalidateTagRelatedCache_start_def)

lemma invalidate_under_noFaults:
  "invalidateTagRelatedCache_under noFaults c ps = (Fulfilled, invalidateTagRelatedCache c ps)"
proof -
  have "snd (invalidateTagRelatedCache_resume noFaults
               (CacheService_deleteKey c TAGS_CACHE_KEYS_publicList) ps) =
        invalidateTagRelatedCache c ps"
    using runJob_started [of c ps] by (simp add: runJob_def)
  then show ?thesis
    by (simp add: invalidateTagRelatedCache_under_def resume_noFaults prod_eq_iff)
qed

subsection \<open>Background work\<close>

lemma waitUntil_simps [simp]:
  "db (waitUntil c j) = db c"
  "entries (waitUntil c j) = entries c"
  "versions (waitUntil c j) = versions c"
  "now (waitUntil c j) = now c"
  "calls (waitUntil c j) = calls c"
  "pending (waitUntil c j) = pending c @ [j]"
  by (simp_all add: waitUntil_def)

lemma waitForBackgroundTasks_waitUntil:
  "waitForBackgroundTasks (waitUntil c j) = runJob (waitForBackgroundTasks c) j"
  by (simp add: waitForBackgroundTasks_def waitUntil_def)

lemma waitForBackgroundTasks_idle: "pending c = [] \<Longrightarrow> waitForBackgroundTasks c = c"
  by (simp add: waitForBackgroundTasks_def)

lemma runJob_frame [simp]:
  "db (runJob c j) = db c"
  "now (runJob c j) = now c"
  "pending (runJob c j) = pending c"
  by (cases j; simp add: runJob_eq deleteKeys_foldl)+

lemma runJobs_frame [simp]:
  "db (foldl runJob c js) = db c"
  "now (foldl runJob c js) = now c"
  "pending (foldl runJob c js) = pending c"
  by (induction js arbitrary: c; simp)+

lemma waitForBackgroundTasks_frame [simp]:
  "db (waitForBackgroundTasks c) = db c"
  "now (waitForBackgroundTasks c) = now c"
  "pending (waitForBackgroundTasks c) = []"
  by (simp_all add: waitForBackgroundTasks_def)

lemma runJob_version_mono: "version_of c n \<le> version_of (runJob c j) n"
  by (cases j) (simp add: runJob_eq version_of_bumpVersion)

lemma runJobs_version_mono: "version_of c n \<le> version_of (foldl runJob c js) n"
proof (induction js arbitrary: c)
  case Nil
  show ?case by simp
next
  case (Cons j js)
  have "version_of c n \<le> version_of (runJob c j) n"
    by (rule runJob_version_mono)
  also have "\<dots> \<le> version_of (foldl runJob (runJob c j) js) n"
    by (rule Cons.IH)
  finally show ?case by simp
qed

lemma waitForBackgroundTasks_version_mono:
  "version_of c n \<le> version_of (waitForBackgroundTasks c) n"
proof -
  have "version_of c n = version_of (c\<lparr>pending := []\<rparr>) n"
    by (simp add: version_of_def)
  also have "\<dots> \<le> version_of (foldl runJob (c\<lparr>pending := []\<rparr>) (pending c)) n"
    by (rule runJobs_version_mono)
  finally show ?thesis by (simp add: waitForBackgroundTasks_def)
qed

text \<open>A job writes no entry: a key that is absent stays absent.\<close>

lemma runJob_absent: "entries c k = None \<Longrightarrow> entries (runJob c j) k = None"
  by (cases j) (simp add: runJob_eq deleteKeys_foldl)

lemma runJobs_absent: "entries c k = None \<Longrightarrow> entries (foldl runJob c js) k = None"
  by (induction js arbitrary: c) (simp_all add: runJob_absent)

lemma waitForBackgroundTasks_absent:
  "entries c k = None \<Longrightarrow> entries (waitForBackgroundTasks c) k = None"
  by (simp add: waitForBackgroundTasks_def runJobs_absent)

subsection \<open>Reads of the cache\<close>

lemma fresh_logged [simp]: "fresh (logged c x) k = fresh c k"
  by (simp add: fresh_def logged_def split: option.splits)

lemma get_hit:
  assumes "fresh c key = Some e" and "schema (payload e)"
  shows "CacheService_get c key schema compute t = (Inr (payload e), logged c (Get key))"
proof -
  have "fresh (logged c (Get key)) key = Some e"
    using assms(1) by simp
  with assms(2) show ?thesis
    by (simp add: CacheService_get_def Let_def)
qed

lemma elapse_simps [simp]:
  "db (elapse c n) = db c"
  "entries (elapse c n) = entries c"
  "versions (elapse c n) = versions c"
  "now (elapse c n) = now c + n"
  "calls (elapse c n) = calls c"
  "pending (elapse c n) = pending c"
  by (simp_all add: elapse_def)

lemma fresh_entry: "fresh c k = Some e \<Longrightarrow> entries c k = Some e"
  by (simp add: fresh_def split: option.splits if_splits)

lemma get_miss:
  assumes "fresh c key = None \<or> (\<exists>e. fresh c key = Some e \<and> \<not> schema (payload e))"
  shows "CacheService_get c key schema compute t =
     (case compute () of
        Inl e \<Rightarrow> (Inl e, logged (logged c (Get key)) (Compute key))
      | Inr v \<Rightarrow>
          if schema v
          then (Inr v,
                (logged (logged c (Get key)) (Compute key))
                  \<lparr>entries := (entries c)(key \<mapsto> \<lparr>payload = v, ttl = t, writtenAt = now c\<rparr>)\<rparr>)
          else (Inl ''SCHEMA_VALIDATION_FAILED'', logged (logged c (Get key)) (Compute key)))"
  using assms by (auto simp: CacheService_get_def Let_def split: sum.splits)

lemma get_value_stored:
  assumes "CacheService_get c key schema compute t = (Inr v, c')"
  shows "\<exists>e. entries c' key = Some e \<and> payload e = v \<and> schema v \<and>
             (fresh c key = Some e \<and> now c' = now c \<or> writtenAt e = now c' \<and> ttl e = t)"
proof (cases "\<exists>e. fresh c key = Some e \<and> schema (payload e)")
  case True
  then obtain e where e: "fresh c key = Some e" "schema (payload e)"
    by blast
  with assms have "v = payload e" "c' = logged c (Get key)"
    by (simp_all add: get_hit)
  with e fresh_entry [OF e(1)] show ?thesis
    by simp
next
  case False
  then have "fresh c key = None \<or> (\<exists>e. fresh c key = Some e \<and> \<not> schema (payload e))"
    by (cases "fresh c key") auto
  from get_miss [OF this, of compute t] assms show ?thesis
    by (auto split: sum.splits if_splits)
qed

lemma get_stored_fresh:
  assumes "CacheService_get c key schema compute t = (Inr v, c')" and "0 < t"
  shows "fresh c' key \<noteq> None"
proof -
  from get_value_stored [OF assms(1)] obtain e
    where e: "entries c' key = Some e"
      and how: "fresh c key = Some e \<and> now c' = now c \<or> writtenAt e = now c' \<and> ttl e = t"
    by blast
  from how show ?thesis
  proof
    assume "fresh c key = Some e \<and> now c' = now c"
    with e show ?thesis
      by (auto simp: fresh_def split: option.splits if_splits)
  next
    assume "writtenAt e = now c' \<and> ttl e = t"
    with e assms(2) show ?thesis
      by (simp add: fresh_def)
  qed
qed

lemma getPublicTags_value: "\<exists>v. fst (getPublicTags c) = Inr v"
  by (auto simp: getPublicTags_def CacheService_get_def Let_def isTagsPayload_def
      split: option.splits)

lemma get_again:
  assumes first: "CacheService_get c key schema compute t = (Inr v, c')"
    and later: "entries later key = entries c' key"
    and still: "fresh later key \<noteq> None"
  shows "CacheService_get later key schema compute' t' = (Inr v, logged later (Get key))"
proof -
  from get_value_stored [OF first] obtain e
    where e: "entries c' key = Some e" "payload e = v" "schema v"
    by blast
  from still obtain e' where e': "fresh later key = Some e'"
    by blast
  have "e' = e"
    using fresh_entry [OF e'] e later by simp
  with e e' show ?thesis
    using get_hit [of later key e schema compute' t'] by simp
qed

lemma get_versions [simp]:
  "versions (snd (CacheService_get c key schema compute t)) = versions c"
  by (simp add: CacheService_get_def Let_def split: option.splits sum.splits)

lemma getRaw_absent:
  "entries c k = None \<Longrightarrow> fst (CacheService_getRaw c k) = None"
  by (simp add: CacheService_getRaw_def fresh_def)

subsection \<open>What the operations of the service change\<close>

lemma updateTag_ok:
  assumes "fst (updateTag c d) = ok tag"
  shows "snd (updateTag c d) =
           waitUntil
             (CacheService_deleteKey
                (c\<lparr>db := snd (TagRepo_updateTag (db c) (upd_id d) (upd_data d))\<rparr>)
                TAGS_CACHE_KEYS_publicList)
             (InvalidateTagRelatedCache (TagRepo_getPublishedPostsByTagId (db c) (upd_id d)))"
    and "tag = fst (TagRepo_updateTag (db c) (upd_id d) (upd_data d))"
  using assms
  by (auto simp: updateTag_def Let_def split: option.splits if_splits prod.splits)

lemma updateTag_frame:
  "versions (snd (updateTag c d)) = versions c"
  "now (snd (updateTag c d)) = now c"
  by (simp_all add: updateTag_def Let_def split: option.splits prod.splits)

lemma deleteTag_frame:
  "versions (snd (deleteTag c d)) = versions c"
  "now (snd (deleteTag c d)) = now c"
  by (simp_all add: deleteTag_def Let_def split: option.splits)

lemma deleteTag_found:
  "TagRepo_findTagById (db c) (del_id d) = Some t \<Longrightarrow>
   deleteTag c d =
     ((), waitUntil
            (CacheService_deleteKey (c\<lparr>db := TagRepo_deleteTag (db c) (del_id d)\<rparr>)
               TAGS_CACHE_KEYS_publicList)
            (InvalidateTagRelatedCache (TagRepo_getPublishedPostsByTagId (db c) (del_id d))))"
  by (simp add: deleteTag_def)

lemma updateTag_under_noFaults: "updateTag_under noFaults c d = updateTag c d"
  by (simp add: updateTag_under_def updateTag_def Let_def split: option.splits prod.splits)

lemma deleteTag_under_noFaults: "deleteTag_under noFaults c d = deleteTag c d"
  by (simp add: deleteTag_under_def deleteTag_def Let_def split: option.splits)

text \<open>The same when calls may fail.\<close>

lemma start_simps [simp]:
  "db (invalidateTagRelatedCache_start fails c) = db c"
  "versions (invalidateTagRelatedCache_start fails c) = versions c"
  "now (invalidateTagRelatedCache_start fails c) = now c"
  "calls (invalidateTagRelatedCache_start fails c) = calls c @ [DeleteKey TAGS_CACHE_KEYS_publicList]"
  "pending (invalidateTagRelatedCache_start fails c) = pending c"
  "entries (invalidateTagRelatedCache_start fails c) =
     (if fails (DeleteKey TAGS_CACHE_KEYS_publicList) then entries c
      else (entries c)(TAGS_CACHE_KEYS_publicList := None))"
  by (simp_all add: invalidateTagRelatedCache_start_def attempt_def)

lemma updateTag_under_value: "fst (updateTag_under fails c d) = fst (updateTag c d)"
  by (simp add: updateTag_under_def updateTag_def Let_def split: option.splits prod.splits)

lemma updateTag_under_ok:
  assumes "fst (updateTag_under fails c d) = ok tag"
  shows "snd (updateTag_under fails c d) =
           waitUntil
             (invalidateTagRelatedCache_start fails
                (c\<lparr>db := snd (TagRepo_updateTag (db c) (upd_id d) (upd_data d))\<rparr>))
             (InvalidateTagRelatedCache (TagRepo_getPublishedPostsByTagId (db c) (upd_id d)))"
  using assms
  by (auto simp: updateTag_under_def Let_def split: option.splits if_splits prod.splits)

lemma deleteTag_under_found:
  "TagRepo_findTagById (db c) (del_id d) = Some t \<Longrightarrow>
   deleteTag_under fails c d =
     ((), waitUntil
            (invalidateTagRelatedCache_start fails
               (c\<lparr>db := TagRepo_deleteTag (db c) (del_id d)\<rparr>))
            (InvalidateTagRelatedCache (TagRepo_getPublishedPostsByTagId (db c) (del_id d))))"
  by (simp add: deleteTag_under_def)

lemma updateTag_under_db:
  "db c1 = db c2 \<Longrightarrow>
   db (snd (updateTag_under fails1 c1 d)) = db (snd (updateTag_under fails2 c2 d))"
  by (simp add: updateTag_under_def Let_def split: option.splits prod.splits)

lemma deleteTag_under_db:
  "db c1 = db c2 \<Longrightarrow>
   db (snd (deleteTag_under fails1 c1 d)) = db (snd (deleteTag_under fails2 c2 d))"
  by (simp add: deleteTag_under_def Let_def split: option.splits)

lemma resume_rejected:
  "fails (DeleteKey TAGS_CACHE_KEYS_publicList) \<Longrightarrow>
   invalidateTagRelatedCache_resume fails c ps = (Rejected, c)"
  by (simp add: invalidateTagRelatedCache_resume_def)

lemma waitForBackgroundTasks_under_waitUntil:
  "waitForBackgroundTasks_under fails (waitUntil c j) =
     (fst (waitForBackgroundTasks_under fails c) @
        [fst (runJob_under fails (snd (waitForBackgroundTasks_under fails c)) j)],
      snd (runJob_under fails (snd (waitForBackgroundTasks_under fails c)) j))"
  by (simp add: waitForBackgroundTasks_under_def waitUntil_def Let_def split: prod.splits)

lemma last_settled_rejected:
  "fails (DeleteKey TAGS_CACHE_KEYS_publicList) \<Longrightarrow>
   last (fst (waitForBackgroundTasks_under fails
                (waitUntil c (InvalidateTagRelatedCache ps)))) = Rejected"
  by (simp add: waitForBackgroundTasks_under_waitUntil resume_rejected)

lemma waitForBackgroundTasks_under_idle:
  "pending c = [] \<Longrightarrow> waitForBackgroundTasks_under fails c = ([], c)"
  by (simp add: waitForBackgroundTasks_under_def)

lemma fresh_db_update [simp]: "fresh (c\<lparr>db := d\<rparr>) k = fresh c k"
  by (simp add: fresh_def split: option.splits)

lemma fresh_start_failed:
  "fails (DeleteKey TAGS_CACHE_KEYS_publicList) \<Longrightarrow>
   fresh (invalidateTagRelatedCache_start fails c) k = fresh c k"
  by (simp add: fresh_def split: option.splits)

lemma createTag_versions [simp]: "versions (snd (createTag c d)) = versions c"
  by (simp add: createTag_def Let_def split: prod.splits)

lemma setPostTags_simps [simp]:
  "db (setPostTags c d) = TagRepo_setPostTags (db c) (postId d) (tagIds d)"
  "entries (setPostTags c d) = entries c"
  "versions (setPostTags c d) = versions c"
  "now (setPostTags c d) = now c"
  "calls (setPostTags c d) = calls c"
  "pending (setPostTags c d) = pending c"
  by (simp_all add: setPostTags_def)

lemma fresh_setPostTags [simp]: "fresh (setPostTags c d) k = fresh c k"
  by (simp add: fresh_def split: option.splits)

subsection \<open>Entries change only through logged calls\<close>

lemma keepsI:
  assumes "calls c' = calls c @ new"
    and "DeleteKey k \<notin> set new \<Longrightarrow> Compute k \<notin> set new \<Longrightarrow> entries c' k = entries c k"
  shows "keeps k c c'"
  using assms by blast

lemma keeps_refl: "keeps k c c"
  by (rule keepsI [of _ _ "[]"]) simp_all

lemma keeps_trans:
  assumes "keeps k c c'" and "keeps k c' c''"
  shows "keeps k c c''"
proof -
  from assms(1) obtain n1 where 1: "calls c' = calls c @ n1"
    "DeleteKey k \<notin> set n1 \<and> Compute k \<notin> set n1 \<longrightarrow> entries c' k = entries c k"
    by blast
  from assms(2) obtain n2 where 2: "calls c'' = calls c' @ n2"
    "DeleteKey k \<notin> set n2 \<and> Compute k \<notin> set n2 \<longrightarrow> entries c'' k = entries c' k"
    by blast
  show ?thesis
    by (rule keepsI [of _ _ "n1 @ n2"]) (use 1 2 in simp_all)
qed

lemma keeps_same:
  "calls c' = calls c \<Longrightarrow> entries c' = entries c \<Longrightarrow> keeps k c c'"
  by (rule keepsI [of _ _ "[]"]) simp_all

lemma logged_keeps: "keeps k c (logged c (Get x))" "keeps k c (logged c (GetRaw x))"
  "keeps k c (logged c (GetVersion x))"
  by (rule keepsI [of _ _ "[_]"]; simp)+

lemma deleteKey_keeps: "keeps k c (CacheService_deleteKey c x)"
  by (rule keepsI [of _ _ "[DeleteKey x]"]) auto

lemma bumpVersion_keeps: "keeps k c (CacheService_bumpVersion c n)"
  by (rule keepsI [of _ _ "[BumpVersion n]"]) simp_all

lemma purgeCDNCache_keeps: "keeps k c (purgeCDNCache c us)"
  by (rule keepsI [of _ _ "[PurgeCDN us]"]) simp_all

lemma deleteKeys_keeps: "keeps k c (foldl (\<lambda>c' p. CacheService_deleteKey c' (f p)) c ps)"
proof (induction ps arbitrary: c)
  case Nil
  show ?case by (simp only: foldl_Nil keeps_refl)
next
  case (Cons p ps)
  show ?case
    unfolding foldl_Cons
    by (rule keeps_trans [OF deleteKey_keeps Cons.IH])
qed

lemma get_calls:
  "calls (snd (CacheService_get c key schema compute t)) = calls c @ [Get key]
   \<or> calls (snd (CacheService_get c key schema compute t)) = calls c @ [Get key, Compute key]"
  by (simp add: CacheService_get_def Let_def split: option.splits sum.splits)

lemma get_keeps: "keeps k c (snd (CacheService_get c key schema compute t))"
proof -
  have e: "Compute k \<noteq> Compute key \<Longrightarrow>
      entries (snd (CacheService_get c key schema compute t)) k = entries c k"
    by (auto simp: CacheService_get_def Let_def split: option.splits sum.splits)
  from get_calls [of c key schema compute t] show ?thesis
  proof
    assume a: "calls (snd (CacheService_get c key schema compute t)) = calls c @ [Get key]"
    then have "entries (snd (CacheService_get c key schema compute t)) = entries c"
      by (auto simp: CacheService_get_def Let_def split: option.splits sum.splits if_splits)
    with a show ?thesis by (intro keepsI [of _ _ "[Get key]"]) simp_all
  next
    assume a: "calls (snd (CacheService_get c key schema compute t)) =
        calls c @ [Get key, Compute key]"
    show ?thesis
      by (rule keepsI [OF a]) (use e in auto)
  qed
qed

lemma invalidate_keeps: "keeps k c (invalidateTagRelatedCache c ps)"
proof (cases "ps = []")
  case True
  show ?thesis
    unfolding True invalidate_empty
    by (rule keeps_trans [OF keeps_trans [OF keeps_trans [OF deleteKey_keeps
        bumpVersion_keeps] bumpVersion_keeps] purgeCDNCache_keeps])
next
  case False
  show ?thesis
    unfolding invalidate_nonempty [OF False]
    by (rule keeps_trans [OF keeps_trans [OF keeps_trans [OF keeps_trans [OF keeps_trans
        [OF deleteKey_keeps bumpVersion_keeps] logged_keeps(3)] deleteKeys_keeps]
        purgeCDNCache_keeps] keeps_refl])
qed

lemma runJob_keeps: "keeps k c (runJob c j)"
proof (cases j)
  case (InvalidateTagRelatedCache ps)
  show ?thesis
  proof (cases "ps = []")
    case True
    show ?thesis
      unfolding InvalidateTagRelatedCache runJob_eq True
      by (simp only: if_True refl)
        (rule keeps_trans [OF keeps_trans [OF bumpVersion_keeps bumpVersion_keeps]
          purgeCDNCache_keeps])
  next
    case False
    show ?thesis
      unfolding InvalidateTagRelatedCache runJob_eq if_not_P [OF False]
      by (rule keeps_trans [OF keeps_trans [OF keeps_trans [OF bumpVersion_keeps
          logged_keeps(3)] deleteKeys_keeps] purgeCDNCache_keeps])
  qed
qed

lemma runJobs_keeps: "keeps k c (foldl runJob c js)"
proof (induction js arbitrary: c)
  case Nil
  show ?case by (simp only: foldl_Nil keeps_refl)
next
  case (Cons j js)
  show ?case
    unfolding foldl_Cons
    by (rule keeps_trans [OF runJob_keeps Cons.IH])
qed

lemma waitForBackgroundTasks_keeps: "keeps k c (waitForBackgroundTasks c)"
  unfolding waitForBackgroundTasks_def
  by (rule keeps_trans [OF keeps_same runJobs_keeps]) simp_all

lemma updateTag_keeps: "keeps k c (snd (updateTag c d))"
proof (cases "\<exists>tag. fst (updateTag c d) = ok tag")
  case True
  then obtain tag where "fst (updateTag c d) = ok tag" ..
  from updateTag_ok(1) [OF this] show ?thesis
    by (intro keepsI [of _ _ "[DeleteKey TAGS_CACHE_KEYS_publicList]"]) auto
next
  case False
  then have "snd (updateTag c d) = c"
    by (auto simp: updateTag_def Let_def split: option.splits if_splits prod.splits)
  then show ?thesis by (simp only: keeps_refl)
qed

lemma deleteTag_keeps: "keeps k c (snd (deleteTag c d))"
proof (cases "TagRepo_findTagById (db c) (del_id d)")
  case None
  then have "snd (deleteTag c d) = c"
    by (simp add: deleteTag_def)
  then show ?thesis by (simp only: keeps_refl)
next
  case (Some t)
  show ?thesis
    unfolding deleteTag_found [OF Some]
    by (intro keepsI [of _ _ "[DeleteKey TAGS_CACHE_KEYS_publicList]"]) auto
qed

lemma createTag_keeps: "keeps k c (snd (createTag c d))"
  by (rule keeps_same) (simp_all add: createTag_def Let_def split: prod.splits)

lemma step_keeps: "keeps k c (step c op)"
proof (cases op)
  case (Op_get key schema compute t)
  then show ?thesis by (simp only: step.simps get_keeps)
next
  case (Op_getRaw key)
  then show ?thesis by (simp only: step.simps CacheService_getRaw_def snd_conv logged_keeps)
next
  case (Op_deleteKey key)
  then show ?thesis by (simp only: step.simps deleteKey_keeps)
next
  case (Op_bumpVersion n)
  then show ?thesis by (simp only: step.simps bumpVersion_keeps)
next
  case (Op_getVersion n)
  then show ?thesis by (simp only: step.simps CacheService_getVersion_def snd_conv logged_keeps)
next
  case (Op_purgeCDNCache us)
  then show ?thesis by (simp only: step.simps purgeCDNCache_keeps)
next
  case (Op_invalidateTagRelatedCache ps)
  then show ?thesis by (simp only: step.simps invalidate_keeps)
next
  case Op_getPublicTags
  then show ?thesis by (simp only: step.simps getPublicTags_def get_keeps)
next
  case (Op_createTag d)
  then show ?thesis by (simp only: step.simps createTag_keeps)
next
  case (Op_updateTag d)
  then show ?thesis by (simp only: step.simps updateTag_keeps)
next
  case (Op_deleteTag d)
  then show ?thesis by (simp only: step.simps deleteTag_keeps)
next
  case (Op_setPostTags d)
  then show ?thesis by (simp only: step.simps) (rule keeps_same; simp)
next
  case Op_waitForBackgroundTasks
  then show ?thesis by (simp only: step.simps waitForBackgroundTasks_keeps)
next
  case (Op_elapse n)
  then show ?thesis by (simp only: step.simps) (rule keeps_same; simp)
qed

lemma history_keeps: "keeps k c (foldl step c ops)"
proof (induction ops arbitrary: c)
  case Nil
  show ?case by (simp only: foldl_Nil keeps_refl)
next
  case (Cons op ops)
  show ?case
    unfolding foldl_Cons
    by (rule keeps_trans [OF step_keeps Cons.IH])
qed

lemma history_entry:
  assumes "DeleteKey k \<notin> set (drop (length (calls c)) (calls (foldl step c ops)))"
    and "Compute k \<notin> set (drop (length (calls c)) (calls (foldl step c ops)))"
  shows "entries (foldl step c ops) k = entries c k"
    and "calls (foldl step c ops) = calls c @ drop (length (calls c)) (calls (foldl step c ops))"
proof -
  from history_keeps [where k = k and c = c and ops = ops] obtain new
    where n: "calls (foldl step c ops) = calls c @ new"
      "DeleteKey k \<notin> set new \<and> Compute k \<notin> set new \<longrightarrow>
         entries (foldl step c ops) k = entries c k"
    by blast
  from n(1) have d: "drop (length (calls c)) (calls (foldl step c ops)) = new"
    by simp
  from n(2) assms show "entries (foldl step c ops) k = entries c k"
    unfolding d by blast
  from n(1) show
    "calls (foldl step c ops) = calls c @ drop (length (calls c)) (calls (foldl step c ops))"
    unfolding d .
qed

subsection \<open>The example with the public list cached\<close>

lemma ex_cached_db [simp]: "db ex_cached = ex_db"
  by (simp add: ex_cached_def getPublicTags_def CacheService_get_def 
      fresh_def isTagsPayload_def ex_context_def Let_def split: option.splits)

lemma ex_first_read:
  "getPublicTags ex_context =
     (Inr (TagsPayload
        [\<lparr>tag_id = 1, tag_name = ''old-name'', tag_createdAt = 10, postCount = 1\<rparr>,
         \<lparr>tag_id = 2, tag_name = ''spare'', tag_createdAt = 20, postCount = 0\<rparr>]),
      ex_cached)"
proof -
  have "fst (getPublicTags ex_context) =
      Inr (TagsPayload
        [\<lparr>tag_id = 1, tag_name = ''old-name'', tag_createdAt = 10, postCount = 1\<rparr>,
         \<lparr>tag_id = 2, tag_name = ''spare'', tag_createdAt = 20, postCount = 0\<rparr>])"
    by (simp add: getPublicTags_def CacheService_get_def fresh_def isTagsPayload_def
        ex_context_def ex_db_def Let_def TagRepo_getAllTagsWithCount_def ordered_def
        withPostCount_def countPosts_def)
  then show ?thesis by (simp add: ex_cached_def prod_eq_iff)
qed

lemma ex_cached_raw:
  "fst (CacheService_getRaw ex_cached TAGS_CACHE_KEYS_publicList) =
     Some (TagsPayload
       [\<lparr>tag_id = 1, tag_name = ''old-name'', tag_createdAt = 10, postCount = 1\<rparr>,
        \<lparr>tag_id = 2, tag_name = ''spare'', tag_createdAt = 20, postCount = 0\<rparr>])"
  by (simp add: ex_cached_def getPublicTags_def CacheService_get_def CacheService_getRaw_def
      fresh_def isTagsPayload_def ttl_7d_def ex_context_def ex_db_def Let_def
      TagRepo_getAllTagsWithCount_def ordered_def withPostCount_def countPosts_def)

lemma ex_cached_calls:
  "calls ex_cached = [Get TAGS_CACHE_KEYS_publicList, Compute TAGS_CACHE_KEYS_publicList]"
  by (simp add: ex_cached_def getPublicTags_def CacheService_get_def fresh_def
      isTagsPayload_def ex_context_def Let_def)

lemma ex_cached_fresh:
  "fresh ex_cached TAGS_CACHE_KEYS_publicList =
     Some \<lparr>payload = TagsPayload
        [\<lparr>tag_id = 1, tag_name = ''old-name'', tag_createdAt = 10, postCount = 1\<rparr>,
         \<lparr>tag_id = 2, tag_name = ''spare'', tag_createdAt = 20, postCount = 0\<rparr>],
       ttl = ttl_7d, writtenAt = 100\<rparr>"
  by (simp add: ex_cached_def getPublicTags_def CacheService_get_def
      fresh_def isTagsPayload_def ex_context_def ex_db_def Let_def
      TagRepo_getAllTagsWithCount_def ordered_def withPostCount_def countPosts_def)
    (simp add: ttl_7d_def)

lemma ex_cached_idle: "pending ex_cached = []"
  by (simp add: ex_cached_def getPublicTags_def CacheService_get_def fresh_def
      isTagsPayload_def ex_context_def Let_def)

lemma ex_rename:
  "fst (updateTag ex_cached \<lparr>upd_id = 1, upd_data = \<lparr>data_name = Some ''new-name''\<rparr>\<rparr>) =
     ok (Some \<lparr>tag_id = 1, tag_name = ''new-name'', tag_createdAt = 10\<rparr>)"
  by (simp add: updateTag_def TagRepo_findTagById_def TagRepo_nameExists_def
      TagRepo_updateTag_def ex_db_def Let_def)

lemma ex_cached_spare:
  "TagRepo_findTagById (db ex_cached) 2 =
     Some \<lparr>tag_id = 2, tag_name = ''spare'', tag_createdAt = 20\<rparr>"
  by (simp add: TagRepo_findTagById_def ex_db_def)

lemma ex_rename_under:
  "fst (updateTag_under fails ex_cached
          \<lparr>upd_id = 1, upd_data = \<lparr>data_name = Some ''new-name''\<rparr>\<rparr>) =
     ok (Some \<lparr>tag_id = 1, tag_name = ''new-name'', tag_createdAt = 10\<rparr>)"
  by (simp only: updateTag_under_value ex_rename)

lemma ex_busy_rename_under:
  "fst (updateTag_under fails ex_busy
          \<lparr>upd_id = 1, upd_data = \<lparr>data_name = Some ''new-name''\<rparr>\<rparr>) =
     ok (Some \<lparr>tag_id = 1, tag_name = ''new-name'', tag_createdAt = 10\<rparr>)"
  by (simp add: updateTag_under_value updateTag_def TagRepo_findTagById_def
      TagRepo_nameExists_def TagRepo_updateTag_def ex_busy_def ex_db_def Let_def)

subsection \<open>The conservative path\<close>

text \<open>
  Claim C1. An invalidation with no affected posts issues, after the delete of the
  public list key, the bump of \<open>posts:detail\<close>, the bump of \<open>posts:list\<close> and one
  purge of the two listing URLs, and nothing else: each of the two versions goes up by
  one, and no cache entry but the public list is deleted. Deleting an existing tag that
  no published post carries starts exactly this invalidation: the delete of the public
  list key is issued on the context with the committed store, and once the work
  pending before it has run, the two bumps and the purge of the listing URLs follow.
  When nothing was pending before, the context left is the one the orchestrator leaves
  on the empty list. Afterwards the public list key is absent and both versions are
  higher than they were before the deletion.
\<close>

theorem conservative_path:
  "calls (invalidateTagRelatedCache context []) =
     calls context @ [DeleteKey TAGS_CACHE_KEYS_publicList, BumpVersion ''posts:detail'',
                      BumpVersion ''posts:list'', PurgeCDN [''/'', ''/posts'']]
   \<and> version_of (invalidateTagRelatedCache context []) ''posts:detail'' =
       version_of context ''posts:detail'' + 1
   \<and> version_of (invalidateTagRelatedCache context []) ''posts:list'' =
       version_of context ''posts:list'' + 1
   \<and> entries (invalidateTagRelatedCache context []) =
       (entries context)(TAGS_CACHE_KEYS_publicList := None)
   \<and> (TagRepo_findTagById (db context) (del_id data) = Some tag \<and>
       TagRepo_getPublishedPostsByTagId (db context) (del_id data) = [] \<longrightarrow>
         waitForBackgroundTasks (snd (deleteTag context data)) =
           purgeCDNCache
             (CacheService_bumpVersion
                (CacheService_bumpVersion
                   (waitForBackgroundTasks
                      (CacheService_deleteKey
                         (context\<lparr>db := TagRepo_deleteTag (db context) (del_id data)\<rparr>)
                         TAGS_CACHE_KEYS_publicList))
                   ''posts:detail'')
                ''posts:list'')
             [''/'', ''/posts'']
         \<and> (pending context = [] \<longrightarrow>
              waitForBackgroundTasks (snd (deleteTag context data)) =
                invalidateTagRelatedCache
                  (context\<lparr>db := TagRepo_deleteTag (db context) (del_id data)\<rparr>) [])
         \<and> entries (waitForBackgroundTasks (snd (deleteTag context data)))
              TAGS_CACHE_KEYS_publicList = None
         \<and> version_of context ''posts:detail'' <
              version_of (waitForBackgroundTasks (snd (deleteTag context data))) ''posts:detail''
         \<and> version_of context ''posts:list'' <
              version_of (waitForBackgroundTasks (snd (deleteTag context data))) ''posts:list'')"
proof (intro conjI impI)
  show "calls (invalidateTagRelatedCache context []) =
     calls context @ [DeleteKey TAGS_CACHE_KEYS_publicList, BumpVersion ''posts:detail'',
                      BumpVersion ''posts:list'', PurgeCDN [''/'', ''/posts'']]"
    by (simp add: invalidate_empty)
  show "version_of (invalidateTagRelatedCache context []) ''posts:detail'' =
       version_of context ''posts:detail'' + 1"
    by (simp add: invalidate_empty version_of_bumpVersion)
  show "version_of (invalidateTagRelatedCache context []) ''posts:list'' =
       version_of context ''posts:list'' + 1"
    by (simp add: invalidate_empty version_of_bumpVersion)
  show "entries (invalidateTagRelatedCache context []) =
       (entries context)(TAGS_CACHE_KEYS_publicList := None)"
    by (simp add: invalidate_empty)
next
  assume a: "TagRepo_findTagById (db context) (del_id data) = Some tag \<and>
       TagRepo_getPublishedPostsByTagId (db context) (del_id data) = []"
  let ?started = "CacheService_deleteKey
                    (context\<lparr>db := TagRepo_deleteTag (db context) (del_id data)\<rparr>)
                    TAGS_CACHE_KEYS_publicList"
  let ?before = "waitForBackgroundTasks ?started"
  from a have run: "waitForBackgroundTasks (snd (deleteTag context data)) =
      runJob ?before (InvalidateTagRelatedCache [])"
    by (simp add: deleteTag_found waitForBackgroundTasks_waitUntil)
  then show rest: "waitForBackgroundTasks (snd (deleteTag context data)) =
      purgeCDNCache
        (CacheService_bumpVersion (CacheService_bumpVersion ?before ''posts:detail'')
           ''posts:list'')
        [''/'', ''/posts'']"
    by (simp add: runJob_eq)
  have absent: "entries ?before TAGS_CACHE_KEYS_publicList = None"
    by (simp add: waitForBackgroundTasks_absent)
  then show "entries (waitForBackgroundTasks (snd (deleteTag context data)))
          TAGS_CACHE_KEYS_publicList = None"
    by (simp add: rest)
  have grow: "version_of context n \<le> version_of ?before n" for n
    using waitForBackgroundTasks_version_mono [of ?started n] by simp
  show "version_of context ''posts:detail'' <
      version_of (waitForBackgroundTasks (snd (deleteTag context data))) ''posts:detail''"
    using grow [of "''posts:detail''"] by (simp add: rest version_of_bumpVersion)
  show "version_of context ''posts:list'' <
      version_of (waitForBackgroundTasks (snd (deleteTag context data))) ''posts:list''"
    using grow [of "''posts:list''"] by (simp add: rest version_of_bumpVersion)
  show "waitForBackgroundTasks (snd (deleteTag context data)) =
      invalidateTagRelatedCache
        (context\<lparr>db := TagRepo_deleteTag (db context) (del_id data)\<rparr>) []"
    if "pending context = []"
  proof -
    from that have "?before = ?started"
      by (simp add: waitForBackgroundTasks_idle)
    with run show ?thesis
      by (simp add: runJob_started)
  qed
qed

text \<open>
  The tag \<open>spare\<close> of the example is carried by a draft only. Deleting it and
  letting the background work run leaves exactly the four calls in the log and both
  versions at 1.
\<close>

theorem conservative_path_witness:
  "TagRepo_findTagById (db ex_context) 2 =
     Some \<lparr>tag_id = 2, tag_name = ''spare'', tag_createdAt = 20\<rparr>
   \<and> TagRepo_getPublishedPostsByTagId (db ex_context) 2 = []
   \<and> calls (waitForBackgroundTasks (snd (deleteTag ex_context \<lparr>del_id = 2\<rparr>))) =
       [DeleteKey TAGS_CACHE_KEYS_publicList, BumpVersion ''posts:detail'',
        BumpVersion ''posts:list'', PurgeCDN [''/'', ''/posts'']]
   \<and> version_of (waitForBackgroundTasks (snd (deleteTag ex_context \<lparr>del_id = 2\<rparr>)))
        ''posts:detail'' = 1
   \<and> version_of (waitForBackgroundTasks (snd (deleteTag ex_context \<lparr>del_id = 2\<rparr>)))
        ''posts:list'' = 1"
proof -
  have found: "TagRepo_findTagById (db ex_context) 2 =
     Some \<lparr>tag_id = 2, tag_name = ''spare'', tag_createdAt = 20\<rparr>"
    by (simp add: ex_context_def ex_db_def TagRepo_findTagById_def)
  have none: "TagRepo_getPublishedPostsByTagId (db ex_context) 2 = []"
    by (simp add: ex_context_def ex_db_def TagRepo_getPublishedPostsByTagId_def)
  have idle: "pending ex_context = []"
    by (simp add: ex_context_def)
  have start: "calls (ex_context\<lparr>db := TagRepo_deleteTag (db ex_context) 2\<rparr>) = []"
    "version_of (ex_context\<lparr>db := TagRepo_deleteTag (db ex_context) 2\<rparr>) n = 0" for n
    by (simp_all add: ex_context_def version_of_def)
  note T = conservative_path [of ex_context "\<lparr>del_id = 2\<rparr>"
      "\<lparr>tag_id = 2, tag_name = ''spare'', tag_createdAt = 20\<rparr>"]
  have sel: "del_id \<lparr>del_id = 2\<rparr> = 2"
    by simp
  have run: "waitForBackgroundTasks (snd (deleteTag ex_context \<lparr>del_id = 2\<rparr>)) =
      invalidateTagRelatedCache (ex_context\<lparr>db := TagRepo_deleteTag (db ex_context) 2\<rparr>) []"
    using T found none idle unfolding sel by blast
  from found none start
    conservative_path [of "ex_context\<lparr>db := TagRepo_deleteTag (db ex_context) 2\<rparr>"]
  show ?thesis by (simp add: run)
qed

subsection \<open>The precise path\<close>

lemma decimal_digit: "n < 10 \<Longrightarrow> decimal n = [''0123456789'' ! n]"
  by (simp add: decimal.simps)

text \<open>
  Claim C2. An invalidation with affected posts issues, after the delete of the public
  list key: the bump of \<open>posts:list\<close>, one read of the version of \<open>posts:detail\<close>,
  one delete per affected post of the detail key built from that version and the slug,
  and one purge of the two listing URLs followed by \<open>/post/{slug}\<close> for each affected
  post, in this order and nothing else. The version of \<open>posts:list\<close> goes up by one,
  that of \<open>posts:detail\<close> stays, and the entries deleted are the public list and
  those detail keys.
\<close>

theorem precise_path:
  assumes "affectedPosts \<noteq> []"
  shows
  "calls (invalidateTagRelatedCache context affectedPosts) =
     calls context
       @ [DeleteKey TAGS_CACHE_KEYS_publicList, BumpVersion ''posts:list'',
          GetVersion ''posts:detail'']
       @ map (\<lambda>post. DeleteKey (POSTS_CACHE_KEYS_detail
                                   (version_of context ''posts:detail'') (slug post)))
           affectedPosts
       @ [PurgeCDN ([''/'', ''/posts''] @ map (\<lambda>post. ''/post/'' @ slug post) affectedPosts)]
   \<and> length (filter (\<lambda>c. c = GetVersion ''posts:detail'')
               (drop (length (calls context))
                  (calls (invalidateTagRelatedCache context affectedPosts)))) = 1
   \<and> version_of (invalidateTagRelatedCache context affectedPosts) ''posts:list'' =
       version_of context ''posts:list'' + 1
   \<and> version_of (invalidateTagRelatedCache context affectedPosts) ''posts:detail'' =
       version_of context ''posts:detail''
   \<and> entries (invalidateTagRelatedCache context affectedPosts) =
       (\<lambda>key. if key = TAGS_CACHE_KEYS_publicList \<or>
                  key \<in> set (map (\<lambda>post. POSTS_CACHE_KEYS_detail
                                           (version_of context ''posts:detail'') (slug post))
                                affectedPosts)
               then None else entries context key)"
proof (intro conjI)
  show log: "calls (invalidateTagRelatedCache context affectedPosts) =
     calls context
       @ [DeleteKey TAGS_CACHE_KEYS_publicList, BumpVersion ''posts:list'',
          GetVersion ''posts:detail'']
       @ map (\<lambda>post. DeleteKey (POSTS_CACHE_KEYS_detail
                                   (version_of context ''posts:detail'') (slug post)))
           affectedPosts
       @ [PurgeCDN ([''/'', ''/posts''] @ map (\<lambda>post. ''/post/'' @ slug post) affectedPosts)]"
    using assms by (simp add: invalidate_nonempty deleteKeys_foldl)
  have "filter (\<lambda>c. c = GetVersion ''posts:detail'')
          (map (\<lambda>post. DeleteKey (f post)) affectedPosts) = []" for f
    by (induction affectedPosts) simp_all
  then show "length (filter (\<lambda>c. c = GetVersion ''posts:detail'')
               (drop (length (calls context))
                  (calls (invalidateTagRelatedCache context affectedPosts)))) = 1"
    by (simp add: log)
  show "version_of (invalidateTagRelatedCache context affectedPosts) ''posts:list'' =
       version_of context ''posts:list'' + 1"
    using assms by (simp add: invalidate_nonempty version_of_bumpVersion)
  show "version_of (invalidateTagRelatedCache context affectedPosts) ''posts:detail'' =
       version_of context ''posts:detail''"
    using assms by (simp add: invalidate_nonempty version_of_bumpVersion)
  show "entries (invalidateTagRelatedCache context affectedPosts) =
       (\<lambda>key. if key = TAGS_CACHE_KEYS_publicList \<or>
                  key \<in> set (map (\<lambda>post. POSTS_CACHE_KEYS_detail
                                           (version_of context ''posts:detail'') (slug post))
                                affectedPosts)
               then None else entries context key)"
    using assms by (auto simp add: invalidate_nonempty deleteKeys_foldl fun_eq_iff)
qed

text \<open>Two affected posts while the detail namespace is at version 3.\<close>

theorem precise_path_witness:
  "[\<lparr>aff_id = 1, slug = ''post-1''\<rparr>, \<lparr>aff_id = 7, slug = ''b''\<rparr>] \<noteq> []
   \<and> calls (invalidateTagRelatedCache (ex_context\<lparr>versions := [''posts:detail'' \<mapsto> 3]\<rparr>)
         [\<lparr>aff_id = 1, slug = ''post-1''\<rparr>, \<lparr>aff_id = 7, slug = ''b''\<rparr>]) =
       [DeleteKey TAGS_CACHE_KEYS_publicList, BumpVersion ''posts:list'',
        GetVersion ''posts:detail'',
        DeleteKey ''posts:detail:v3:post-1'', DeleteKey ''posts:detail:v3:b'',
        PurgeCDN [''/'', ''/posts'', ''/post/post-1'', ''/post/b'']]
   \<and> version_of (invalidateTagRelatedCache (ex_context\<lparr>versions := [''posts:detail'' \<mapsto> 3]\<rparr>)
         [\<lparr>aff_id = 1, slug = ''post-1''\<rparr>, \<lparr>aff_id = 7, slug = ''b''\<rparr>]) ''posts:list'' = 1
   \<and> version_of (invalidateTagRelatedCache (ex_context\<lparr>versions := [''posts:detail'' \<mapsto> 3]\<rparr>)
         [\<lparr>aff_id = 1, slug = ''post-1''\<rparr>, \<lparr>aff_id = 7, slug = ''b''\<rparr>]) ''posts:detail'' = 3"
proof -
  have v: "version_of (ex_context\<lparr>versions := [''posts:detail'' \<mapsto> 3]\<rparr>) ''posts:detail'' = 3"
    "version_of (ex_context\<lparr>versions := [''posts:detail'' \<mapsto> 3]\<rparr>) ''posts:list'' = 0"
    "calls (ex_context\<lparr>versions := [''posts:detail'' \<mapsto> 3]\<rparr>) = []"
    by (simp_all add: version_of_def ex_context_def)
  have k: "POSTS_CACHE_KEYS_detail 3 s = ''posts:detail:v3:'' @ s" for s
    by (simp add: POSTS_CACHE_KEYS_detail_def decimal_digit)
  from v k
    precise_path [of "[\<lparr>aff_id = 1, slug = ''post-1''\<rparr>, \<lparr>aff_id = 7, slug = ''b''\<rparr>]"
      "ex_context\<lparr>versions := [''posts:detail'' \<mapsto> 3]\<rparr>"]
  show ?thesis by simp
qed

subsection \<open>The public list key\<close>

text \<open>
  Claim C3. Whatever the affected posts, the first call of an invalidation is the delete
  of the public list key, before the code branches on the list, and when the
  invalidation is over the key is absent. So after a successful \<open>updateTag\<close>, once
  the background work has run, a raw read of the public list key finds nothing.
\<close>

theorem publicList_always_deleted:
  "(\<exists>rest. calls (invalidateTagRelatedCache context affectedPosts) =
             calls context @ DeleteKey TAGS_CACHE_KEYS_publicList # rest)
   \<and> fst (CacheService_getRaw (invalidateTagRelatedCache context affectedPosts)
            TAGS_CACHE_KEYS_publicList) = None
   \<and> (fst (updateTag context data) = ok tag \<longrightarrow>
        fst (CacheService_getRaw (waitForBackgroundTasks (snd (updateTag context data)))
               TAGS_CACHE_KEYS_publicList) = None)"
proof (intro conjI impI)
  show "\<exists>rest. calls (invalidateTagRelatedCache context affectedPosts) =
             calls context @ DeleteKey TAGS_CACHE_KEYS_publicList # rest"
    by (rule invalidate_first_call)
  show "fst (CacheService_getRaw (invalidateTagRelatedCache context affectedPosts)
            TAGS_CACHE_KEYS_publicList) = None"
    by (simp add: getRaw_absent)
next
  assume "fst (updateTag context data) = ok tag"
  then have "entries (snd (updateTag context data)) TAGS_CACHE_KEYS_publicList = None"
    by (simp add: updateTag_ok(1))
  then have "entries (waitForBackgroundTasks (snd (updateTag context data)))
      TAGS_CACHE_KEYS_publicList = None"
    by (rule waitForBackgroundTasks_absent)
  then show "fst (CacheService_getRaw (waitForBackgroundTasks (snd (updateTag context data)))
               TAGS_CACHE_KEYS_publicList) = None"
    by (rule getRaw_absent)
qed

text \<open>
  Renaming the tag \<open>old-name\<close> of the example while the public list is cached: the
  key is there before and gone after the background work.
\<close>

theorem publicList_always_deleted_witness:
  "fst (updateTag ex_cached \<lparr>upd_id = 1, upd_data = \<lparr>data_name = Some ''new-name''\<rparr>\<rparr>) =
     ok (Some \<lparr>tag_id = 1, tag_name = ''new-name'', tag_createdAt = 10\<rparr>)
   \<and> fst (CacheService_getRaw ex_cached TAGS_CACHE_KEYS_publicList) \<noteq> None
   \<and> fst (CacheService_getRaw
            (waitForBackgroundTasks
               (snd (updateTag ex_cached
                       \<lparr>upd_id = 1, upd_data = \<lparr>data_name = Some ''new-name''\<rparr>\<rparr>)))
            TAGS_CACHE_KEYS_publicList) = None"
  using ex_rename ex_cached_raw
    publicList_always_deleted [of ex_cached "[]"
      "\<lparr>upd_id = 1, upd_data = \<lparr>data_name = Some ''new-name''\<rparr>\<rparr>"
      "Some \<lparr>tag_id = 1, tag_name = ''new-name'', tag_createdAt = 10\<rparr>"]
  by simp

subsection \<open>Mutations and the invalidation they dispatch\<close>

text \<open>
  Claim C5. Whichever cache and purge calls fail, and whatever the cache holds,
  \<open>updateTag\<close> and \<open>deleteTag\<close> return the same value and leave the same store:
  both are a function of the store and the input alone, and when nothing fails they are
  the operations above. On success the store is committed, the invalidation is started
  on the context with the committed store, so that the delete of the public list key is
  the one call issued before the operation returns, and its promise is pending, handed
  to \<open>waitUntil\<close>, not awaited. When that delete fails the promise rejects in the
  background, and the value returned is still the success.
\<close>

theorem mutation_result_ignores_invalidation:
  assumes "db c1 = db c2"
  shows
  "fst (updateTag_under fails1 c1 upd) = fst (updateTag_under fails2 c2 upd)
   \<and> db (snd (updateTag_under fails1 c1 upd)) = db (snd (updateTag_under fails2 c2 upd))
   \<and> db (snd (deleteTag_under fails1 c1 del)) = db (snd (deleteTag_under fails2 c2 del))
   \<and> updateTag_under noFaults c1 upd = updateTag c1 upd
   \<and> deleteTag_under noFaults c1 del = deleteTag c1 del
   \<and> (fst (updateTag_under fails1 c1 upd) = ok tag \<longrightarrow>
        db (snd (updateTag_under fails1 c1 upd)) =
          snd (TagRepo_updateTag (db c1) (upd_id upd) (upd_data upd))
        \<and> calls (snd (updateTag_under fails1 c1 upd)) =
            calls c1 @ [DeleteKey TAGS_CACHE_KEYS_publicList]
        \<and> pending (snd (updateTag_under fails1 c1 upd)) =
            pending c1 @
              [InvalidateTagRelatedCache (TagRepo_getPublishedPostsByTagId (db c1) (upd_id upd))]
        \<and> (fails1 (DeleteKey TAGS_CACHE_KEYS_publicList) \<longrightarrow>
             last (fst (waitForBackgroundTasks_under fails1 (snd (updateTag_under fails1 c1 upd))))
               = Rejected))
   \<and> (TagRepo_findTagById (db c1) (del_id del) = Some t \<longrightarrow>
        db (snd (deleteTag_under fails1 c1 del)) = TagRepo_deleteTag (db c1) (del_id del)
        \<and> calls (snd (deleteTag_under fails1 c1 del)) =
            calls c1 @ [DeleteKey TAGS_CACHE_KEYS_publicList]
        \<and> pending (snd (deleteTag_under fails1 c1 del)) =
            pending c1 @
              [InvalidateTagRelatedCache (TagRepo_getPublishedPostsByTagId (db c1) (del_id del))]
        \<and> (fails1 (DeleteKey TAGS_CACHE_KEYS_publicList) \<longrightarrow>
             last (fst (waitForBackgroundTasks_under fails1 (snd (deleteTag_under fails1 c1 del))))
               = Rejected))"
proof (intro conjI impI)
  show "fst (updateTag_under fails1 c1 upd) = fst (updateTag_under fails2 c2 upd)"
    using assms
    by (simp add: updateTag_under_value updateTag_def Let_def split: option.splits prod.splits)
  show "db (snd (updateTag_under fails1 c1 upd)) = db (snd (updateTag_under fails2 c2 upd))"
    using assms by (rule updateTag_under_db)
  show "db (snd (deleteTag_under fails1 c1 del)) = db (snd (deleteTag_under fails2 c2 del))"
    using assms by (rule deleteTag_under_db)
  show "updateTag_under noFaults c1 upd = updateTag c1 upd"
    by (rule updateTag_under_noFaults)
  show "deleteTag_under noFaults c1 del = deleteTag c1 del"
    by (rule deleteTag_under_noFaults)
next
  assume v: "fst (updateTag_under fails1 c1 upd) = ok tag"
  note s = updateTag_under_ok [OF v]
  show "db (snd (updateTag_under fails1 c1 upd)) =
      snd (TagRepo_updateTag (db c1) (upd_id upd) (upd_data upd))"
    by (simp add: s)
  show "calls (snd (updateTag_under fails1 c1 upd)) =
      calls c1 @ [DeleteKey TAGS_CACHE_KEYS_publicList]"
    by (simp add: s)
  show "pending (snd (updateTag_under fails1 c1 upd)) =
      pending c1 @
        [InvalidateTagRelatedCache (TagRepo_getPublishedPostsByTagId (db c1) (upd_id upd))]"
    by (simp add: s)
  show "last (fst (waitForBackgroundTasks_under fails1 (snd (updateTag_under fails1 c1 upd))))
      = Rejected"
    if "fails1 (DeleteKey TAGS_CACHE_KEYS_publicList)"
    using that by (simp only: s last_settled_rejected)
next
  assume f: "TagRepo_findTagById (db c1) (del_id del) = Some t"
  note s = deleteTag_under_found [OF f]
  show "db (snd (deleteTag_under fails1 c1 del)) = TagRepo_deleteTag (db c1) (del_id del)"
    by (simp add: s)
  show "calls (snd (deleteTag_under fails1 c1 del)) =
      calls c1 @ [DeleteKey TAGS_CACHE_KEYS_publicList]"
    by (simp add: s)
  show "pending (snd (deleteTag_under fails1 c1 del)) =
      pending c1 @
        [InvalidateTagRelatedCache (TagRepo_getPublishedPostsByTagId (db c1) (del_id del))]"
    by (simp add: s)
  show "last (fst (waitForBackgroundTasks_under fails1 (snd (deleteTag_under fails1 c1 del))))
      = Rejected"
    if "fails1 (DeleteKey TAGS_CACHE_KEYS_publicList)"
    using that by (simp only: s snd_conv last_settled_rejected)
qed

text \<open>
  The rename of the example with every cache call failing: the value is the renamed tag,
  the same as on the busy cache with nothing failing; the promise rejects; and the
  stale public list is still served afterwards. Deleting the tag \<open>spare\<close> with
  every call failing goes the same way.
\<close>

theorem mutation_result_ignores_invalidation_witness:
  "db ex_cached = db ex_busy
   \<and> fst (updateTag_under (\<lambda>call. True) ex_cached
            \<lparr>upd_id = 1, upd_data = \<lparr>data_name = Some ''new-name''\<rparr>\<rparr>) =
       ok (Some \<lparr>tag_id = 1, tag_name = ''new-name'', tag_createdAt = 10\<rparr>)
   \<and> fst (updateTag_under noFaults ex_busy
            \<lparr>upd_id = 1, upd_data = \<lparr>data_name = Some ''new-name''\<rparr>\<rparr>) =
       ok (Some \<lparr>tag_id = 1, tag_name = ''new-name'', tag_createdAt = 10\<rparr>)
   \<and> calls (snd (updateTag_under (\<lambda>call. True) ex_cached
                    \<lparr>upd_id = 1, upd_data = \<lparr>data_name = Some ''new-name''\<rparr>\<rparr>)) =
       [Get TAGS_CACHE_KEYS_publicList, Compute TAGS_CACHE_KEYS_publicList,
        DeleteKey TAGS_CACHE_KEYS_publicList]
   \<and> pending (snd (updateTag_under (\<lambda>call. True) ex_cached
                      \<lparr>upd_id = 1, upd_data = \<lparr>data_name = Some ''new-name''\<rparr>\<rparr>)) =
       [InvalidateTagRelatedCache [\<lparr>aff_id = 1, slug = ''post-1''\<rparr>]]
   \<and> fst (waitForBackgroundTasks_under (\<lambda>call. True)
            (snd (updateTag_under (\<lambda>call. True) ex_cached
                    \<lparr>upd_id = 1, upd_data = \<lparr>data_name = Some ''new-name''\<rparr>\<rparr>))) =
       [Rejected]
   \<and> fst (CacheService_getRaw
            (snd (waitForBackgroundTasks_under (\<lambda>call. True)
                    (snd (updateTag_under (\<lambda>call. True) ex_cached
                            \<lparr>upd_id = 1, upd_data = \<lparr>data_name = Some ''new-name''\<rparr>\<rparr>))))
            TAGS_CACHE_KEYS_publicList) \<noteq> None
   \<and> TagRepo_findTagById (db ex_cached) 2 =
       Some \<lparr>tag_id = 2, tag_name = ''spare'', tag_createdAt = 20\<rparr>
   \<and> calls (snd (deleteTag_under (\<lambda>call. True) ex_cached \<lparr>del_id = 2\<rparr>)) =
       [Get TAGS_CACHE_KEYS_publicList, Compute TAGS_CACHE_KEYS_publicList,
        DeleteKey TAGS_CACHE_KEYS_publicList]
   \<and> pending (snd (deleteTag_under (\<lambda>call. True) ex_cached \<lparr>del_id = 2\<rparr>)) =
       [InvalidateTagRelatedCache []]
   \<and> last (fst (waitForBackgroundTasks_under (\<lambda>call. True)
                  (snd (deleteTag_under (\<lambda>call. True) ex_cached \<lparr>del_id = 2\<rparr>)))) =
       Rejected"
proof -
  let ?rename = "\<lparr>upd_id = 1, upd_data = \<lparr>data_name = Some ''new-name''\<rparr>\<rparr>"
  let ?tag = "Some \<lparr>tag_id = 1, tag_name = ''new-name'', tag_createdAt = 10\<rparr>"
  let ?after = "snd (updateTag_under (\<lambda>call. True) ex_cached ?rename)"
  let ?gone = "snd (deleteTag_under (\<lambda>call. True) ex_cached \<lparr>del_id = 2\<rparr>)"
  have d: "db ex_cached = db ex_busy"
    by (simp add: ex_busy_def)
  have a: "TagRepo_getPublishedPostsByTagId (db ex_cached) 1 =
      [\<lparr>aff_id = 1, slug = ''post-1''\<rparr>]"
    by (simp add: TagRepo_getPublishedPostsByTagId_def ex_db_def)
  have n: "TagRepo_getPublishedPostsByTagId (db ex_cached) 2 = []"
    by (simp add: TagRepo_getPublishedPostsByTagId_def ex_db_def)
  note T = mutation_result_ignores_invalidation [OF d,
      where ?fails1.0 = "\<lambda>call. True" and upd = ?rename and ?fails2.0 = noFaults
        and del = "\<lparr>del_id = 2\<rparr>" and tag = ?tag
        and t = "\<lparr>tag_id = 2, tag_name = ''spare'', tag_createdAt = 20\<rparr>"]
  have v: "fst (updateTag_under (\<lambda>call. True) ex_cached ?rename) = ok ?tag"
    by (rule ex_rename_under)
  have v2: "fst (updateTag_under noFaults ex_busy ?rename) = ok ?tag"
    using T v by simp
  have c: "calls ?after =
      [Get TAGS_CACHE_KEYS_publicList, Compute TAGS_CACHE_KEYS_publicList,
       DeleteKey TAGS_CACHE_KEYS_publicList]"
    using T v ex_cached_calls by simp
  have p: "pending ?after = [InvalidateTagRelatedCache [\<lparr>aff_id = 1, slug = ''post-1''\<rparr>]]"
    using T v a ex_cached_idle by simp
  have sel: "del_id \<lparr>del_id = 2\<rparr> = 2"
    by simp
  have dc: "calls ?gone =
      [Get TAGS_CACHE_KEYS_publicList, Compute TAGS_CACHE_KEYS_publicList,
       DeleteKey TAGS_CACHE_KEYS_publicList]"
    using T ex_cached_spare ex_cached_calls unfolding sel by simp
  have dp: "pending ?gone = [InvalidateTagRelatedCache []]"
    using T ex_cached_spare n ex_cached_idle unfolding sel by simp
  have dr: "last (fst (waitForBackgroundTasks_under (\<lambda>call. True) ?gone)) = Rejected"
    using T ex_cached_spare unfolding sel by simp
  note s = updateTag_under_ok [OF v]
  have i: "pending (invalidateTagRelatedCache_start (\<lambda>call. True)
      (ex_cached\<lparr>db := snd (TagRepo_updateTag (db ex_cached) (upd_id ?rename)
                                (upd_data ?rename))\<rparr>)) = []"
    by (simp add: ex_cached_idle)
  have w: "waitForBackgroundTasks_under (\<lambda>call. True) ?after =
      ([Rejected],
       invalidateTagRelatedCache_start (\<lambda>call. True)
         (ex_cached\<lparr>db := snd (TagRepo_updateTag (db ex_cached) (upd_id ?rename)
                                   (upd_data ?rename))\<rparr>))"
    unfolding s waitForBackgroundTasks_under_waitUntil waitForBackgroundTasks_under_idle [OF i]
    by (simp add: resume_rejected)
  have r: "fst (CacheService_getRaw
      (snd (waitForBackgroundTasks_under (\<lambda>call. True) ?after))
      TAGS_CACHE_KEYS_publicList) \<noteq> None"
    unfolding w by (simp add: CacheService_getRaw_def fresh_start_failed ex_cached_fresh)
  have o: "fst (waitForBackgroundTasks_under (\<lambda>call. True) ?after) = [Rejected]"
    unfolding w by simp
  from d v v2 c p o r ex_cached_spare dc dp dr show ?thesis
    by blast
qed

subsection \<open>Duplicate names\<close>

lemma nameExists_member:
  "TagRepo_nameExists d name None \<longleftrightarrow> name \<in> tag_name ` set (tags d)"
  by (simp add: TagRepo_nameExists_def)

lemma nameExists_other:
  "TagRepo_nameExists d name (Some i) \<longleftrightarrow>
     (\<exists>other. other \<in> set (tags d) \<and> tag_name other = name \<and> tag_id other \<noteq> i)"
  by (auto simp: TagRepo_nameExists_def)

text \<open>
  Claim C6, as stated, names the outcome \<open>NAME_ALREADY_EXISTS\<close>. The reason the code
  gives is the string \<open>TAG_NAME_ALREADY_EXISTS\<close>, which is also what the test of the
  repository and the switch of the admin page compare against.
\<close>

theorem createTag_duplicate_counterexample:
  "\<lparr>tag_id = 2, tag_name = ''spare'', tag_createdAt = 20\<rparr> \<in> set (tags (db ex_context))
   \<and> fst (createTag ex_context \<lparr>create_name = ''spare''\<rparr>) \<noteq> err ''NAME_ALREADY_EXISTS''"
  by (simp add: createTag_def TagRepo_nameExists_def ex_context_def ex_db_def)

text \<open>
  Claim C6, amended. When some tag row carries the name, \<open>createTag\<close> returns the
  error with reason \<open>TAG_NAME_ALREADY_EXISTS\<close> and the context, the store in it,
  is the one it was given: no row is inserted.
\<close>

theorem createTag_duplicate:
  assumes "t \<in> set (tags (db context))" and "tag_name t = create_name data"
  shows "createTag context data = (err ''TAG_NAME_ALREADY_EXISTS'', context)"
proof -
  have "TagRepo_nameExists (db context) (create_name data) None"
    using assms by (metis nameExists_member imageI)
  then show ?thesis by (simp add: createTag_def)
qed

theorem createTag_duplicate_witness:
  "\<lparr>tag_id = 2, tag_name = ''spare'', tag_createdAt = 20\<rparr> \<in> set (tags (db ex_context))
   \<and> createTag ex_context \<lparr>create_name = ''spare''\<rparr> =
       (err ''TAG_NAME_ALREADY_EXISTS'', ex_context)
   \<and> tags (db (snd (createTag ex_context \<lparr>create_name = ''spare''\<rparr>))) = tags ex_db"
proof -
  have m: "\<lparr>tag_id = 2, tag_name = ''spare'', tag_createdAt = 20\<rparr> \<in> set (tags (db ex_context))"
    by (simp add: ex_context_def ex_db_def)
  have d: "db ex_context = ex_db" by (simp add: ex_context_def)
  from m d createTag_duplicate [OF m, of "\<lparr>create_name = ''spare''\<rparr>"]
  show ?thesis by simp
qed

text \<open>
  Claim C10. For an existing tag, a payload without a name or with the current name
  is committed at once: the result is \<open>ok\<close> of the updated row whether or not another
  row carries that name, so the uniqueness query plays no part. And when the result is
  \<open>TAG_NAME_ALREADY_EXISTS\<close>, the payload has a name that differs from the current
  one and is the name of a row with another id.
\<close>

theorem updateTag_name_check:
  "(TagRepo_findTagById (db context) (upd_id data) = Some t \<and>
    (data_name (upd_data data) = None \<or> data_name (upd_data data) = Some (tag_name t)) \<longrightarrow>
      fst (updateTag context data) =
        ok (fst (TagRepo_updateTag (db context) (upd_id data) (upd_data data))))
   \<and> (fst (updateTag context data) = err ''TAG_NAME_ALREADY_EXISTS'' \<longrightarrow>
        (\<exists>existing name other.
            TagRepo_findTagById (db context) (upd_id data) = Some existing \<and>
            data_name (upd_data data) = Some name \<and> name \<noteq> tag_name existing \<and>
            other \<in> set (tags (db context)) \<and> tag_name other = name \<and>
            tag_id other \<noteq> upd_id data))"
proof (intro conjI impI)
  assume "TagRepo_findTagById (db context) (upd_id data) = Some t \<and>
    (data_name (upd_data data) = None \<or> data_name (upd_data data) = Some (tag_name t))"
  then show "fst (updateTag context data) =
        ok (fst (TagRepo_updateTag (db context) (upd_id data) (upd_data data)))"
    by (auto simp: updateTag_def Let_def split: prod.splits)
next
  assume e: "fst (updateTag context data) = err ''TAG_NAME_ALREADY_EXISTS''"
  then obtain existing where f: "TagRepo_findTagById (db context) (upd_id data) = Some existing"
    by (cases "TagRepo_findTagById (db context) (upd_id data)") (simp_all add: updateTag_def)
  from e f obtain name where n: "data_name (upd_data data) = Some name"
    "name \<noteq> tag_name existing" "TagRepo_nameExists (db context) name (Some (upd_id data))"
    by (cases "data_name (upd_data data)")
      (auto simp: updateTag_def Let_def split: if_splits prod.splits)
  from n(3) obtain other where "other \<in> set (tags (db context))" "tag_name other = name"
    "tag_id other \<noteq> upd_id data"
    by (auto simp: nameExists_other)
  with f n show "\<exists>existing name other.
            TagRepo_findTagById (db context) (upd_id data) = Some existing \<and>
            data_name (upd_data data) = Some name \<and> name \<noteq> tag_name existing \<and>
            other \<in> set (tags (db context)) \<and> tag_name other = name \<and>
            tag_id other \<noteq> upd_id data"
    by blast
qed

text \<open>
  In the store with the twins the uniqueness query would answer yes for \<open>twin\<close>;
  renaming tag 1 to its own name, or sending no name, succeeds all the same. In the
  first example renaming tag 1 to \<open>spare\<close> is refused.
\<close>

theorem updateTag_name_check_witness:
  "TagRepo_findTagById (db ex_twins) 1 = Some \<lparr>tag_id = 1, tag_name = ''twin'', tag_createdAt = 10\<rparr>
   \<and> TagRepo_nameExists (db ex_twins) ''twin'' (Some 1)
   \<and> fst (updateTag ex_twins \<lparr>upd_id = 1, upd_data = \<lparr>data_name = Some ''twin''\<rparr>\<rparr>) =
       ok (Some \<lparr>tag_id = 1, tag_name = ''twin'', tag_createdAt = 10\<rparr>)
   \<and> fst (updateTag ex_twins \<lparr>upd_id = 1, upd_data = \<lparr>data_name = None\<rparr>\<rparr>) =
       ok (Some \<lparr>tag_id = 1, tag_name = ''twin'', tag_createdAt = 10\<rparr>)
   \<and> fst (updateTag ex_context \<lparr>upd_id = 1, upd_data = \<lparr>data_name = Some ''spare''\<rparr>\<rparr>) =
       err ''TAG_NAME_ALREADY_EXISTS''"
proof -
  have f: "TagRepo_findTagById (db ex_twins) 1 =
      Some \<lparr>tag_id = 1, tag_name = ''twin'', tag_createdAt = 10\<rparr>"
    by (simp add: ex_twins_def TagRepo_findTagById_def)
  have n: "TagRepo_nameExists (db ex_twins) ''twin'' (Some 1)"
    by (simp add: ex_twins_def TagRepo_nameExists_def)
  have u: "fst (TagRepo_updateTag (db ex_twins) 1 \<lparr>data_name = x\<rparr>) =
      Some \<lparr>tag_id = 1, tag_name = ''twin'', tag_createdAt = 10\<rparr>"
    if "x = None \<or> x = Some ''twin''" for x
    using that by (auto simp: ex_twins_def TagRepo_updateTag_def)
  have e: "fst (updateTag ex_context \<lparr>upd_id = 1, upd_data = \<lparr>data_name = Some ''spare''\<rparr>\<rparr>) =
       err ''TAG_NAME_ALREADY_EXISTS''"
    by (simp add: updateTag_def TagRepo_findTagById_def TagRepo_nameExists_def
        ex_context_def ex_db_def)
  from f n u e
    updateTag_name_check [of ex_twins "\<lparr>upd_id = 1, upd_data = \<lparr>data_name = Some ''twin''\<rparr>\<rparr>"
      "\<lparr>tag_id = 1, tag_name = ''twin'', tag_createdAt = 10\<rparr>"]
    updateTag_name_check [of ex_twins "\<lparr>upd_id = 1, upd_data = \<lparr>data_name = None\<rparr>\<rparr>"
      "\<lparr>tag_id = 1, tag_name = ''twin'', tag_createdAt = 10\<rparr>"]
  show ?thesis by simp
qed

subsection \<open>Sorting without counts\<close>

lemma getTags_without_counts:
  assumes "withCount data \<noteq> Some True"
  shows "getTags context data =
     map Inl (TagRepo_getAllTags (db context)
                (case orDefault (sortBy data) SortBy_name of
                   SortBy_postCount \<Rightarrow> TagSortBy_name
                 | SortBy_name \<Rightarrow> TagSortBy_name
                 | SortBy_createdAt \<Rightarrow> TagSortBy_createdAt)
                (orDefault (sortDir data) asc))"
  using assms by (cases "withCount data") (auto simp: getTags_def orDefault_def)

lemma getAllTags_by_name:
  "TagRepo_getAllTags d TagSortBy_name asc = sort_key tag_name (tags d)"
  "TagRepo_getAllTags d TagSortBy_name desc = rev (sort_key tag_name (tags d))"
  by (simp_all add: TagRepo_getAllTags_def ordered_def)

text \<open>
  Claim C9. With \<open>sortBy = "postCount"\<close> and no counts asked for, \<open>getTags\<close>
  queries the repository with \<open>sortBy = "name"\<close>: the result is what the same call
  with \<open>sortBy = "name"\<close> returns, it holds every tag row, without counts, and its
  names ascend or descend with the direction.
\<close>

theorem getTags_postCount_without_counts:
  assumes "sortBy data = Some SortBy_postCount" and "withCount data \<noteq> Some True"
  shows
  "getTags context data =
     map Inl (TagRepo_getAllTags (db context) TagSortBy_name (orDefault (sortDir data) asc))
   \<and> getTags context data = getTags context (data\<lparr>sortBy := Some SortBy_name\<rparr>)
   \<and> set (getTags context data) = Inl ` set (tags (db context))
   \<and> (orDefault (sortDir data) asc = asc \<longrightarrow>
        sorted (map (case_sum tag_name tag_name) (getTags context data)))
   \<and> (orDefault (sortDir data) asc = desc \<longrightarrow>
        sorted (rev (map (case_sum tag_name tag_name) (getTags context data))))"
proof -
  have eq: "getTags context data =
     map Inl (TagRepo_getAllTags (db context) TagSortBy_name (orDefault (sortDir data) asc))"
    using assms by (simp add: getTags_without_counts orDefault_def)
  have same: "getTags context data = getTags context (data\<lparr>sortBy := Some SortBy_name\<rparr>)"
    using assms by (simp add: getTags_without_counts orDefault_def)
  have names: "map (case_sum tag_name tag_name) (map Inl ts) = map tag_name ts" for ts :: "Tag list"
    by simp
  have all: "set (getTags context data) = Inl ` set (tags (db context))"
    by (cases "orDefault (sortDir data) asc") (simp_all add: eq getAllTags_by_name)
  have up: "sorted (map (case_sum tag_name tag_name) (getTags context data))"
    if "orDefault (sortDir data) asc = asc"
    using that by (simp add: eq names getAllTags_by_name del: map_map)
  have down: "sorted (rev (map (case_sum tag_name tag_name) (getTags context data)))"
    if "orDefault (sortDir data) asc = desc"
    using that by (simp add: eq names getAllTags_by_name rev_map [symmetric] del: map_map)
  from eq same all up down show ?thesis by blast
qed

text \<open>The two tags of the example, by post count and descending: they come by name.\<close>

theorem getTags_postCount_without_counts_witness:
  "getTags ex_context
     \<lparr>sortBy = Some SortBy_postCount, sortDir = Some desc, withCount = None,
      publicOnly = None\<rparr> =
     [Inl \<lparr>tag_id = 2, tag_name = ''spare'', tag_createdAt = 20\<rparr>,
      Inl \<lparr>tag_id = 1, tag_name = ''old-name'', tag_createdAt = 10\<rparr>]
   \<and> getTags ex_context
     \<lparr>sortBy = Some SortBy_postCount, sortDir = Some desc, withCount = None,
      publicOnly = None\<rparr> =
     getTags ex_context
     \<lparr>sortBy = Some SortBy_name, sortDir = Some desc, withCount = None,
      publicOnly = None\<rparr>
   \<and> sorted (rev (map (case_sum tag_name tag_name)
        (getTags ex_context
           \<lparr>sortBy = Some SortBy_postCount, sortDir = Some desc, withCount = None,
            publicOnly = None\<rparr>)))"
proof -
  let ?data = "\<lparr>sortBy = Some SortBy_postCount, sortDir = Some desc, withCount = None,
                publicOnly = None\<rparr>"
  have s: "sort_key tag_name (tags (db ex_context)) =
      [\<lparr>tag_id = 1, tag_name = ''old-name'', tag_createdAt = 10\<rparr>,
       \<lparr>tag_id = 2, tag_name = ''spare'', tag_createdAt = 20\<rparr>]"
    by (simp add: ex_context_def ex_db_def)
  have h1: "sortBy ?data = Some SortBy_postCount" by simp
  have h2: "withCount ?data \<noteq> Some True" by simp
  have dir: "orDefault (sortDir ?data) asc = desc" by (simp add: orDefault_def)
  note T = getTags_postCount_without_counts [OF h1 h2, of ex_context]
  have 1: "getTags ex_context ?data =
      [Inl \<lparr>tag_id = 2, tag_name = ''spare'', tag_createdAt = 20\<rparr>,
       Inl \<lparr>tag_id = 1, tag_name = ''old-name'', tag_createdAt = 10\<rparr>]"
    by (simp only: T [THEN conjunct1] dir getAllTags_by_name s) simp
  have "getTags ex_context ?data = getTags ex_context (?data\<lparr>sortBy := Some SortBy_name\<rparr>)"
    by (rule T [THEN conjunct2, THEN conjunct1])
  then have 2: "getTags ex_context ?data =
      getTags ex_context
        \<lparr>sortBy = Some SortBy_name, sortDir = Some desc, withCount = None, publicOnly = None\<rparr>"
    by simp
  from T dir have 3: "sorted (rev (map (case_sum tag_name tag_name) (getTags ex_context ?data)))"
    by blast
  from 1 2 3 show ?thesis by blast
qed

subsection \<open>Reading through the cache\<close>

text \<open>
  Claim C7. After a \<open>get\<close> that returned a value, let any history follow: calls of
  the cache service, invalidations, operations of the tag service, background work,
  time passing. If among the calls logged since then there is no delete of the key and
  no compute for the key, and the entry of the key has not elapsed at the end, then a
  second \<open>get\<close> of the key returns the value of the first and logs the read only:
  its compute function, whichever it is, is not called, and since before the first
  \<open>get\<close> the compute function of the key has been called at most once. Right
  after a first call with a positive TTL the entry has not elapsed. In particular a
  second \<open>getPublicTags\<close> right after the first returns what the first returned.
\<close>

theorem cache_hit_on_second_get:
  assumes first: "CacheService_get context key schema compute t = (Inr v, context')"
    and no_invalidation:
      "DeleteKey key \<notin> set (drop (length (calls context')) (calls (foldl step context' ops)))"
    and no_overwrite:
      "Compute key \<notin> set (drop (length (calls context')) (calls (foldl step context' ops)))"
    and still: "fresh (foldl step context' ops) key \<noteq> None"
  shows
  "CacheService_get (foldl step context' ops) key schema compute' t' =
     (Inr v, logged (foldl step context' ops) (Get key))
   \<and> calls (snd (CacheService_get (foldl step context' ops) key schema compute' t')) =
       calls (foldl step context' ops) @ [Get key]
   \<and> length (filter (\<lambda>c. c = Compute key)
               (drop (length (calls context))
                  (calls (snd (CacheService_get (foldl step context' ops)
                                 key schema compute' t')))))
       \<le> 1
   \<and> (0 < t \<longrightarrow> fresh (elapse context' 0) key \<noteq> None)
   \<and> (getPublicTags c = (r, c') \<longrightarrow>
        getPublicTags c' = (r, logged c' (Get TAGS_CACHE_KEYS_publicList)))"
proof -
  let ?later = "foldl step context' ops"
  let ?new = "drop (length (calls context')) (calls ?later)"
  note h = history_entry [OF no_invalidation no_overwrite]
  have second: "CacheService_get ?later key schema compute' t' =
      (Inr v, logged ?later (Get key))"
    by (rule get_again [OF first h(1) still])
  have zero: "elapse context' 0 = context'"
    by (simp add: elapse_def)
  from get_calls [of "context" key schema compute t] first
  obtain begun where begun: "calls context' = calls context @ begun"
    "length (filter (\<lambda>c. c = Compute key) begun) \<le> 1"
    by auto
  have none: "filter (\<lambda>c. c = Compute key) ?new = []"
    using no_overwrite by (auto simp: filter_empty_conv)
  have since: "drop (length (calls context)) (calls context' @ ?new @ [Get key]) =
      begun @ ?new @ [Get key]"
    by (simp add: begun(1))
  have count: "length (filter (\<lambda>c. c = Compute key)
      (drop (length (calls context)) (calls context' @ ?new @ [Get key]))) \<le> 1"
    unfolding since using begun(2) none by simp
  have log: "calls (logged ?later (Get key)) = calls context' @ ?new @ [Get key]"
    using h(2) by simp
  have public: "getPublicTags c' = (r, logged c' (Get TAGS_CACHE_KEYS_publicList))"
    if p: "getPublicTags c = (r, c')"
  proof -
    from getPublicTags_value [of c] p obtain w where r: "r = Inr w"
      by auto
    have "0 < ttl_7d" by (simp add: ttl_7d_def)
    with p r have "fresh c' TAGS_CACHE_KEYS_publicList \<noteq> None"
      unfolding getPublicTags_def by (blast dest: get_stored_fresh)
    with p r show ?thesis
      unfolding getPublicTags_def by (simp add: get_again [where later = c'])
  qed
  show ?thesis
  proof (intro conjI impI)
    show "CacheService_get ?later key schema compute' t' = (Inr v, logged ?later (Get key))"
      by (rule second)
    show "calls (snd (CacheService_get ?later key schema compute' t')) =
        calls ?later @ [Get key]"
      unfolding second by simp
    show "length (filter (\<lambda>c. c = Compute key)
        (drop (length (calls context))
           (calls (snd (CacheService_get ?later key schema compute' t'))))) \<le> 1"
      unfolding second snd_conv log by (rule count)
    show "fresh (elapse context' 0) key \<noteq> None" if "0 < t"
      unfolding zero by (rule get_stored_fresh [OF first that])
    show "getPublicTags c' = (r, logged c' (Get TAGS_CACHE_KEYS_publicList))"
      if "getPublicTags c = (r, c')"
      by (rule public [OF that])
  qed
qed

text \<open>
  The sequence of the caching test on the example: the public list is read, the
  background work runs, the key is read raw, an hour passes, and the list is read
  again. One compute call in the log.
\<close>

theorem cache_hit_on_second_get_witness:
  "getPublicTags ex_context =
     (Inr (TagsPayload
        [\<lparr>tag_id = 1, tag_name = ''old-name'', tag_createdAt = 10, postCount = 1\<rparr>,
         \<lparr>tag_id = 2, tag_name = ''spare'', tag_createdAt = 20, postCount = 0\<rparr>]),
      ex_cached)
   \<and> calls (foldl step ex_cached
              [Op_waitForBackgroundTasks, Op_getRaw TAGS_CACHE_KEYS_publicList,
               Op_elapse 3600]) =
       [Get TAGS_CACHE_KEYS_publicList, Compute TAGS_CACHE_KEYS_publicList,
        GetRaw TAGS_CACHE_KEYS_publicList]
   \<and> fresh (foldl step ex_cached
              [Op_waitForBackgroundTasks, Op_getRaw TAGS_CACHE_KEYS_publicList,
               Op_elapse 3600])
        TAGS_CACHE_KEYS_publicList \<noteq> None
   \<and> fst (getPublicTags
            (foldl step ex_cached
               [Op_waitForBackgroundTasks, Op_getRaw TAGS_CACHE_KEYS_publicList,
                Op_elapse 3600])) =
       fst (getPublicTags ex_context)
   \<and> calls (snd (getPublicTags
                   (foldl step ex_cached
                      [Op_waitForBackgroundTasks, Op_getRaw TAGS_CACHE_KEYS_publicList,
                       Op_elapse 3600]))) =
       [Get TAGS_CACHE_KEYS_publicList, Compute TAGS_CACHE_KEYS_publicList,
        GetRaw TAGS_CACHE_KEYS_publicList, Get TAGS_CACHE_KEYS_publicList]"
proof -
  let ?ops = "[Op_waitForBackgroundTasks, Op_getRaw TAGS_CACHE_KEYS_publicList, Op_elapse 3600]"
  have later: "foldl step ex_cached ?ops =
      elapse (logged ex_cached (GetRaw TAGS_CACHE_KEYS_publicList)) 3600"
    by (simp add: waitForBackgroundTasks_idle [OF ex_cached_idle] CacheService_getRaw_def)
  have log: "calls (foldl step ex_cached ?ops) =
      [Get TAGS_CACHE_KEYS_publicList, Compute TAGS_CACHE_KEYS_publicList,
       GetRaw TAGS_CACHE_KEYS_publicList]"
    unfolding later by (simp add: ex_cached_calls)
  have still: "fresh (foldl step ex_cached ?ops) TAGS_CACHE_KEYS_publicList \<noteq> None"
    unfolding later using ex_cached_fresh
    by (auto simp: fresh_def ttl_7d_def ex_cached_def getPublicTags_def CacheService_get_def
        Let_def ex_context_def isTagsPayload_def split: option.splits if_splits)
  have no_invalidation: "DeleteKey TAGS_CACHE_KEYS_publicList \<notin>
      set (drop (length (calls ex_cached)) (calls (foldl step ex_cached ?ops)))"
    unfolding log by (simp add: ex_cached_calls)
  have no_overwrite: "Compute TAGS_CACHE_KEYS_publicList \<notin>
      set (drop (length (calls ex_cached)) (calls (foldl step ex_cached ?ops)))"
    unfolding log by (simp add: ex_cached_calls)
  note first = ex_first_read [unfolded getPublicTags_def]
  note T = cache_hit_on_second_get [OF first no_invalidation no_overwrite still,
      of "\<lambda>_. Inr (TagsPayload
                    (TagRepo_getAllTagsWithCount (db (foldl step ex_cached ?ops))
                       SortBy_postCount desc True))"
         ttl_7d]
  have second: "getPublicTags (foldl step ex_cached ?ops) =
      (Inr (TagsPayload
        [\<lparr>tag_id = 1, tag_name = ''old-name'', tag_createdAt = 10, postCount = 1\<rparr>,
         \<lparr>tag_id = 2, tag_name = ''spare'', tag_createdAt = 20, postCount = 0\<rparr>]),
       logged (foldl step ex_cached ?ops) (Get TAGS_CACHE_KEYS_publicList))"
    unfolding getPublicTags_def by (rule T [THEN conjunct1])
  show ?thesis
    unfolding second using ex_first_read log still by simp
qed

subsection \<open>Writing the associations of a post\<close>

lemma ex_retagged_view:
  "TagRepo_getAllTagsWithCount (db (setPostTags ex_cached \<lparr>postId = 1, tagIds = [2]\<rparr>))
     SortBy_postCount desc True =
     [\<lparr>tag_id = 2, tag_name = ''spare'', tag_createdAt = 20, postCount = 1\<rparr>,
      \<lparr>tag_id = 1, tag_name = ''old-name'', tag_createdAt = 10, postCount = 0\<rparr>]"
  by (simp add: TagRepo_setPostTags_def ex_db_def
      TagRepo_getAllTagsWithCount_def ordered_def withPostCount_def countPosts_def)

text \<open>
  Claim C4, as stated, has every write of post-tag associations invalidate the cache
  entries it made stale. In the example the public list is cached with \<open>old-name\<close>
  counted once. Moving the published post from \<open>old-name\<close> to \<open>spare\<close> changes
  the association table and the public view computed from it, but no cache call is made,
  nothing is handed to the background, and the next read is served the old list.
\<close>

theorem setPostTags_counterexample:
  "postTags (db (setPostTags ex_cached \<lparr>postId = 1, tagIds = [2]\<rparr>)) \<noteq> postTags (db ex_cached)
   \<and> TagRepo_getAllTagsWithCount (db (setPostTags ex_cached \<lparr>postId = 1, tagIds = [2]\<rparr>))
        SortBy_postCount desc True =
       [\<lparr>tag_id = 2, tag_name = ''spare'', tag_createdAt = 20, postCount = 1\<rparr>,
        \<lparr>tag_id = 1, tag_name = ''old-name'', tag_createdAt = 10, postCount = 0\<rparr>]
   \<and> calls (setPostTags ex_cached \<lparr>postId = 1, tagIds = [2]\<rparr>) = calls ex_cached
   \<and> pending (setPostTags ex_cached \<lparr>postId = 1, tagIds = [2]\<rparr>) = []
   \<and> fst (getPublicTags
            (waitForBackgroundTasks (setPostTags ex_cached \<lparr>postId = 1, tagIds = [2]\<rparr>))) =
       Inr (TagsPayload
         [\<lparr>tag_id = 1, tag_name = ''old-name'', tag_createdAt = 10, postCount = 1\<rparr>,
          \<lparr>tag_id = 2, tag_name = ''spare'', tag_createdAt = 20, postCount = 0\<rparr>])"
proof (intro conjI)
  show "postTags (db (setPostTags ex_cached \<lparr>postId = 1, tagIds = [2]\<rparr>)) \<noteq>
      postTags (db ex_cached)"
    by (simp add: TagRepo_setPostTags_def ex_db_def)
  show "TagRepo_getAllTagsWithCount (db (setPostTags ex_cached \<lparr>postId = 1, tagIds = [2]\<rparr>))
        SortBy_postCount desc True =
       [\<lparr>tag_id = 2, tag_name = ''spare'', tag_createdAt = 20, postCount = 1\<rparr>,
        \<lparr>tag_id = 1, tag_name = ''old-name'', tag_createdAt = 10, postCount = 0\<rparr>]"
    by (rule ex_retagged_view)
  show "calls (setPostTags ex_cached \<lparr>postId = 1, tagIds = [2]\<rparr>) = calls ex_cached"
    by simp
  show idle: "pending (setPostTags ex_cached \<lparr>postId = 1, tagIds = [2]\<rparr>) = []"
    by (simp add: ex_cached_idle)
  have "fresh (setPostTags ex_cached \<lparr>postId = 1, tagIds = [2]\<rparr>) TAGS_CACHE_KEYS_publicList =
     Some \<lparr>payload = TagsPayload
        [\<lparr>tag_id = 1, tag_name = ''old-name'', tag_createdAt = 10, postCount = 1\<rparr>,
         \<lparr>tag_id = 2, tag_name = ''spare'', tag_createdAt = 20, postCount = 0\<rparr>],
       ttl = ttl_7d, writtenAt = 100\<rparr>"
    by (simp add: ex_cached_fresh)
  then have "fst (getPublicTags (setPostTags ex_cached \<lparr>postId = 1, tagIds = [2]\<rparr>)) =
       Inr (TagsPayload
         [\<lparr>tag_id = 1, tag_name = ''old-name'', tag_createdAt = 10, postCount = 1\<rparr>,
          \<lparr>tag_id = 2, tag_name = ''spare'', tag_createdAt = 20, postCount = 0\<rparr>])"
    by (simp add: getPublicTags_def get_hit isTagsPayload_def)
  then show "fst (getPublicTags
            (waitForBackgroundTasks (setPostTags ex_cached \<lparr>postId = 1, tagIds = [2]\<rparr>))) =
       Inr (TagsPayload
         [\<lparr>tag_id = 1, tag_name = ''old-name'', tag_createdAt = 10, postCount = 1\<rparr>,
          \<lparr>tag_id = 2, tag_name = ''spare'', tag_createdAt = 20, postCount = 0\<rparr>])"
    by (simp only: waitForBackgroundTasks_idle [OF idle])
qed

text \<open>
  Claim C4, amended. \<open>setPostTags\<close> replaces the associations of the post in the
  store and does nothing else: cache entries, versions, the call log, the pending work
  and the clock are as before, and a public list that is cached keeps being served.
  The source says so: "edit only, no cache invalidation"; the cache is refreshed on
  publish.
\<close>

theorem setPostTags_store_only:
  "db (setPostTags context data) =
     (db context)\<lparr>postTags := filter (\<lambda>pt. fst pt \<noteq> postId data) (postTags (db context))
                               @ map (\<lambda>t. (postId data, t)) (tagIds data)\<rparr>
   \<and> entries (setPostTags context data) = entries context
   \<and> versions (setPostTags context data) = versions context
   \<and> calls (setPostTags context data) = calls context
   \<and> pending (setPostTags context data) = pending context
   \<and> now (setPostTags context data) = now context
   \<and> (fresh context TAGS_CACHE_KEYS_publicList = Some e \<and> isTagsPayload (payload e) \<longrightarrow>
        fst (getPublicTags (setPostTags context data)) = Inr (payload e))"
  by (simp add: TagRepo_setPostTags_def getPublicTags_def get_hit)

text \<open>The same edit of the example, through the amended statement.\<close>

theorem setPostTags_store_only_witness:
  "fresh ex_cached TAGS_CACHE_KEYS_publicList =
     Some \<lparr>payload = TagsPayload
        [\<lparr>tag_id = 1, tag_name = ''old-name'', tag_createdAt = 10, postCount = 1\<rparr>,
         \<lparr>tag_id = 2, tag_name = ''spare'', tag_createdAt = 20, postCount = 0\<rparr>],
       ttl = ttl_7d, writtenAt = 100\<rparr>
   \<and> postTags (db (setPostTags ex_cached \<lparr>postId = 1, tagIds = [2]\<rparr>)) = [(2, 2), (1, 2)]
   \<and> calls (setPostTags ex_cached \<lparr>postId = 1, tagIds = [2]\<rparr>) =
       [Get TAGS_CACHE_KEYS_publicList, Compute TAGS_CACHE_KEYS_publicList]
   \<and> fst (getPublicTags (setPostTags ex_cached \<lparr>postId = 1, tagIds = [2]\<rparr>)) =
       Inr (TagsPayload
         [\<lparr>tag_id = 1, tag_name = ''old-name'', tag_createdAt = 10, postCount = 1\<rparr>,
          \<lparr>tag_id = 2, tag_name = ''spare'', tag_createdAt = 20, postCount = 0\<rparr>])"
proof -
  have p: "postTags (db ex_cached) = [(1, 1), (2, 2)]"
    by (simp add: ex_db_def)
  from p ex_cached_fresh ex_cached_calls
    setPostTags_store_only [of ex_cached "\<lparr>postId = 1, tagIds = [2]\<rparr>"
      "\<lparr>payload = TagsPayload
        [\<lparr>tag_id = 1, tag_name = ''old-name'', tag_createdAt = 10, postCount = 1\<rparr>,
         \<lparr>tag_id = 2, tag_name = ''spare'', tag_createdAt = 20, postCount = 0\<rparr>],
        ttl = ttl_7d, writtenAt = 100\<rparr>"]
  show ?thesis by (simp add: isTagsPayload_def)
qed

subsection \<open>Versions only grow\<close>

lemma step_version_mono: "version_of c n \<le> version_of (step c op) n"
proof (cases op)
  case (Op_bumpVersion m)
  then show ?thesis by (simp add: version_of_bumpVersion)
next
  case (Op_invalidateTagRelatedCache ps)
  then show ?thesis by (simp add: invalidate_version_mono)
next
  case Op_waitForBackgroundTasks
  then show ?thesis by (simp add: waitForBackgroundTasks_version_mono)
qed (simp_all add: version_of_def getPublicTags_def CacheService_getRaw_def
      updateTag_frame deleteTag_frame)
text \<open>
  Claim C8. For every namespace and every history, the version \<open>getVersion\<close>
  returns after the history is at least the one it returned before; a bump adds
  exactly one; and a namespace without a counter reads as 0.
\<close>

theorem version_monotone:
  "fst (CacheService_getVersion context namespace) \<le>
     fst (CacheService_getVersion (foldl step context ops) namespace)
   \<and> fst (CacheService_getVersion (CacheService_bumpVersion context namespace) namespace) =
       fst (CacheService_getVersion context namespace) + 1
   \<and> (versions context namespace = None \<longrightarrow>
        fst (CacheService_getVersion context namespace) = 0)"
proof (intro conjI impI)
  have "version_of c namespace \<le> version_of (foldl step c ops) namespace" for c
  proof (induction ops arbitrary: c)
    case Nil
    show ?case by simp
  next
    case (Cons op ops)
    have "version_of c namespace \<le> version_of (step c op) namespace"
      by (rule step_version_mono)
    also have "\<dots> \<le> version_of (foldl step (step c op) ops) namespace"
      by (rule Cons.IH)
    finally show ?case by simp
  qed
  then show "fst (CacheService_getVersion context namespace) \<le>
     fst (CacheService_getVersion (foldl step context ops) namespace)"
    by simp
  show "fst (CacheService_getVersion (CacheService_bumpVersion context namespace) namespace) =
       fst (CacheService_getVersion context namespace) + 1"
    by (simp add: version_of_bumpVersion)
next
  assume "versions context namespace = None"
  then show "fst (CacheService_getVersion context namespace) = 0"
    by (simp add: version_of_def)
qed

text \<open>
  A history on the example: a bump of \<open>posts:list\<close>, the deletion of a tag without
  published posts, a read, the background work, a delete of a key. The version of
  \<open>posts:list\<close> goes from 0 to 2.
\<close>

theorem version_monotone_witness:
  "versions ex_context ''posts:list'' = None
   \<and> fst (CacheService_getVersion ex_context ''posts:list'') = 0
   \<and> fst (CacheService_getVersion
            (foldl step ex_context
               [Op_bumpVersion ''posts:list'', Op_deleteTag \<lparr>del_id = 2\<rparr>, Op_getPublicTags,
                Op_waitForBackgroundTasks, Op_deleteKey ''posts:list''])
            ''posts:list'') = 2"
proof -
  have n: "versions ex_context ''posts:list'' = None"
    by (simp add: ex_context_def)
  have "fst (CacheService_getVersion
            (foldl step ex_context
               [Op_bumpVersion ''posts:list'', Op_deleteTag \<lparr>del_id = 2\<rparr>, Op_getPublicTags,
                Op_waitForBackgroundTasks, Op_deleteKey ''posts:list''])
            ''posts:list'') = 2"
    by (simp add: deleteTag_def TagRepo_findTagById_def TagRepo_getPublishedPostsByTagId_def
        ex_context_def ex_db_def waitForBackgroundTasks_def waitUntil_def getPublicTags_def
        CacheService_get_def fresh_def Let_def isTagsPayload_def runJob_eq
        version_of_bumpVersion version_of_def CacheService_bumpVersion_def logged_def)
  with n version_monotone [of ex_context "''posts:list''"
      "[Op_bumpVersion ''posts:list'', Op_deleteTag \<lparr>del_id = 2\<rparr>, Op_getPublicTags,
        Op_waitForBackgroundTasks, Op_deleteKey ''posts:list'']"]
  show ?thesis by simp
qed

end
